theory Spec2Isabelle
  imports Main
begin

section \<open>Data model\<close>

text \<open>
  The automaton of \<^verbatim>\<open>automaton.cpp\<close> owns its nodes in the vector \<^verbatim>\<open>nodes\<close>; a node is
  created only by \<^verbatim>\<open>std::make_shared<Node>(nodes.size(), depth)\<close> followed by
  \<^verbatim>\<open>nodes.push_back\<close>, so the node with id \<open>i\<close> is the one stored at index \<open>i\<close>.
  A \<^verbatim>\<open>NodePtr\<close> is therefore modelled by the id of the node it points to, the vector
  \<^verbatim>\<open>nodes\<close> is the store, and the null pointer is \<open>None\<close>. The field \<^verbatim>\<open>node_id\<close> of a
  node is its index in the store. The root pointer is the id \<open>0\<close>.

  Ids are \<^verbatim>\<open>int\<close> in the source and are only ever sizes of the node vector; they are
  natural numbers here. Positions in a text and depths stay integers (the depth of the
  root is \<open>-1\<close>); they are unbounded, where the source's \<^verbatim>\<open>int\<close> would wrap only for a
  text or a trie of \<open>2^31\<close> tokens or nodes.
\<close>

type_synonym token = string
type_synonym NodePtr = nat
type_synonym Match = "int \<times> int \<times> string"

text \<open>
  Modelled from the spec: the class \<^verbatim>\<open>Node\<close> is declared in \<^verbatim>\<open>node.h\<close>, which is not among
  the sources. Its fields are the ones \<^verbatim>\<open>automaton.cpp\<close> reads and writes: \<^verbatim>\<open>depth\<close>,
  \<^verbatim>\<open>value\<close> (\<open>val\<close> here; the empty string marks a node that ends no pattern), \<^verbatim>\<open>outs\<close>
  (the mapping from token to child, with unique keys and no ordering requirement: an
  association list, iterated in the order of insertion) and \<^verbatim>\<open>matches\<close> (the outputs: a
  vector, since \<^verbatim>\<open>update_automaton\<close> appends to it through \<^verbatim>\<open>std::back_inserter\<close>).
\<close>

record Node =
  depth :: int
  val :: string
  outs :: "(token \<times> NodePtr) list"
  matches :: "NodePtr list"

record Automaton =
  nodes :: "Node list"
  alphabet :: "token set"
  fail_table :: "nat list"
  uptodate :: bool

text \<open>\<^verbatim>\<open>Node(node_id, depth)\<close>: no value, no edges, no matches.\<close>

definition new_Node :: "int \<Rightarrow> Node" where
  "new_Node d = \<lparr>depth = d, val = [], outs = [], matches = []\<rparr>"

text \<open>\<^verbatim>\<open>Automaton::Automaton()\<close>: the root has id 0 and depth -1.\<close>

definition Automaton_init :: Automaton where
  "Automaton_init = \<lparr>nodes = [new_Node (- 1)], alphabet = {}, fail_table = [], uptodate = False\<rparr>"

subsection \<open>Node methods\<close>

text \<open>
  Modelled from the spec: \<^verbatim>\<open>Node::get_outnode\<close> (the methods of \<^verbatim>\<open>Node\<close> are not among the
  sources) follows the edge of a token, if it exists, and yields the null pointer
  otherwise.
\<close>

definition get_outnode :: "Node \<Rightarrow> token \<Rightarrow> NodePtr option" where
  "get_outnode n elem = map_of (outs n) elem"

text \<open>
  Modelled from the spec: \<^verbatim>\<open>Node::set_outnode\<close> adds the edge of a token to the mapping;
  keys stay unique, so an edge already stored under the token is replaced.
\<close>

fun upd_out :: "token \<Rightarrow> NodePtr \<Rightarrow> (token \<times> NodePtr) list \<Rightarrow> (token \<times> NodePtr) list" where
  "upd_out k p [] = [(k, p)]"
| "upd_out k p ((k', p') # es) = (if k' = k then (k, p) # es else (k', p') # upd_out k p es)"

definition set_outnode :: "Node \<Rightarrow> token \<Rightarrow> NodePtr \<Rightarrow> Node" where
  "set_outnode n elem p = n\<lparr>outs := upd_out elem p (outs n)\<rparr>"

text \<open>Modelled from the spec: \<^verbatim>\<open>Node::set_value\<close> sets the node's value to the given payload.\<close>

definition set_value :: "Node \<Rightarrow> string \<Rightarrow> Node" where
  "set_value n v = n\<lparr>val := v\<rparr>"

text \<open>
  Modelled from the spec: \<^verbatim>\<open>Node::add_match\<close> "adds the node to its own outputs set"; a
  node that is already a member is not added again.
\<close>

definition add_match :: "Node \<Rightarrow> NodePtr \<Rightarrow> Node" where
  "add_match n p = n\<lparr>matches := (if p \<in> set (matches n) then matches n else matches n @ [p])\<rparr>"

section \<open>Insertion and lookup\<close>

text \<open>
  The loop of \<^verbatim>\<open>Automaton::add\<close>; \<open>d\<close> is the loop index \<^verbatim>\<open>depth\<close> and the list holds the
  tokens \<^verbatim>\<open>pattern[depth..]\<close> still to be consumed. A pointer is dereferenced by reading
  the store at its id (\<open>ns ! p\<close>); the pointers of the source are shared pointers to
  nodes of the store, so the read is in range for every automaton the operations produce.
\<close>

fun add_loop :: "Automaton \<Rightarrow> NodePtr \<Rightarrow> int \<Rightarrow> token list \<Rightarrow> Automaton \<times> NodePtr" where
  "add_loop a node d [] = (a, node)"
| "add_loop a node d (elem # rest) =
     (let a1 = a\<lparr>alphabet := insert elem (alphabet a)\<rparr> in
      case get_outnode (nodes a1 ! node) elem of
        Some outnode \<Rightarrow> add_loop a1 outnode (d + 1) rest
      | None \<Rightarrow>
          (let newnode = length (nodes a1);
               ns1 = (nodes a1)[node := set_outnode (nodes a1 ! node) elem newnode];
               a2 = a1\<lparr>nodes := ns1 @ [new_Node d]\<rparr>
           in add_loop a2 newnode (d + 1) rest))"

definition add :: "Automaton \<Rightarrow> token list \<Rightarrow> string \<Rightarrow> Automaton" where
  "add a pattern v =
     (case add_loop a 0 0 pattern of
        (a1, node) \<Rightarrow>
          a1\<lparr>nodes := (nodes a1)[node := add_match (set_value (nodes a1 ! node) v) node],
             uptodate := False\<rparr>)"

fun find_loop :: "Node list \<Rightarrow> NodePtr \<Rightarrow> token list \<Rightarrow> NodePtr option" where
  "find_loop ns node [] = Some node"
| "find_loop ns node (elem # rest) =
     (case get_outnode (ns ! node) elem of
        Some outnode \<Rightarrow> find_loop ns outnode rest
      | None \<Rightarrow> None)"

definition find_node :: "Automaton \<Rightarrow> token list \<Rightarrow> NodePtr option" where
  "find_node a prefix = find_loop (nodes a) 0 prefix"

definition has_pattern :: "Automaton \<Rightarrow> token list \<Rightarrow> bool" where
  "has_pattern a pattern =
     (case find_node a pattern of Some node \<Rightarrow> val (nodes a ! node) \<noteq> [] | None \<Rightarrow> False)"

definition has_prefix :: "Automaton \<Rightarrow> token list \<Rightarrow> bool" where
  "has_prefix a prefix = (case find_node a prefix of Some node \<Rightarrow> False | None \<Rightarrow> True)"

definition get_value :: "Automaton \<Rightarrow> token list \<Rightarrow> string" where
  "get_value a pattern =
     (case find_node a pattern of Some node \<Rightarrow> val (nodes a ! node) | None \<Rightarrow> [])"

section \<open>The automaton: goto, failure table, scanning\<close>

text \<open>
  \<^verbatim>\<open>goto_node\<close>: the real edge if there is one, the root itself at the root, the null
  pointer elsewhere. The unchecked access \<^verbatim>\<open>nodes[node_id]\<close> is guarded where
  \<^verbatim>\<open>goto_node\<close> is called.
\<close>

definition goto_node :: "Node list \<Rightarrow> nat \<Rightarrow> token \<Rightarrow> NodePtr option" where
  "goto_node ns node_id elem =
     (case map_of (outs (ns ! node_id)) elem of
        Some p \<Rightarrow> Some p
      | None \<Rightarrow> if node_id = 0 then Some 0 else None)"

text \<open>
  The failure walk \<^verbatim>\<open>while (goto_node(id, elem) == NULL) id = fail_table[id];\<close>, which
  \<^verbatim>\<open>update_automaton\<close> and \<^verbatim>\<open>get_matches\<close> both contain. The result is the id at which
  the walk stops; \<open>None\<close> stands for a walk that never stops or that indexes a vector
  out of range.
\<close>

partial_function (option) follow_fail :: "Node list \<Rightarrow> nat list \<Rightarrow> nat \<Rightarrow> token \<Rightarrow> nat option" where
  "follow_fail ns ft node_id elem =
     (if node_id < length ns then
        (case goto_node ns node_id elem of
           Some p \<Rightarrow> Some node_id
         | None \<Rightarrow> if node_id < length ft then follow_fail ns ft (ft ! node_id) elem else None)
      else None)"

declare follow_fail.simps [code]

text \<open>
  The body of the inner loop of \<^verbatim>\<open>update_automaton\<close>, over the edges \<open>(key, dest)\<close> of the
  node taken from the queue. The state is the node store, the local failure table and
  the queue.
\<close>

fun for_outs :: "nat \<Rightarrow> (token \<times> NodePtr) list \<Rightarrow> Node list \<times> nat list \<times> nat list
    \<Rightarrow> (Node list \<times> nat list \<times> nat list) option" where
  "for_outs node_id [] st = Some st"
| "for_outs node_id ((key, dest) # es) (ns, ft, Q) =
     (if node_id < length ft then
        (case follow_fail ns ft (ft ! node_id) key of
           None \<Rightarrow> None
         | Some fail_node_id \<Rightarrow>
            (case goto_node ns fail_node_id key of
               None \<Rightarrow> None
             | Some g \<Rightarrow>
                 if dest < length ft \<and> dest < length ns \<and> g < length ns then
                   (let ft' = ft[dest := g];
                        fail_node = ns ! (ft' ! dest);
                        ns' = ns[dest := (ns ! dest)\<lparr>matches := matches (ns ! dest) @ matches fail_node\<rparr>]
                    in for_outs node_id es (ns', ft', Q @ [dest]))
                 else None))
      else None)"

text \<open>The queue loop \<^verbatim>\<open>while (Q.size() > 0)\<close> of \<^verbatim>\<open>update_automaton\<close>.\<close>

partial_function (option) queue_loop :: "Node list \<Rightarrow> nat list \<Rightarrow> nat list \<Rightarrow> (Node list \<times> nat list) option" where
  "queue_loop ns ft Q =
     (case Q of
        [] \<Rightarrow> Some (ns, ft)
      | node_id # Q' \<Rightarrow>
          if node_id < length ns then
            (case for_outs node_id (outs (ns ! node_id)) (ns, ft, Q') of
               None \<Rightarrow> None
             | Some (ns', ft', Q'') \<Rightarrow> queue_loop ns' ft' Q'')
          else None)"

declare queue_loop.simps [code]

definition update_automaton :: "Automaton \<Rightarrow> Automaton option" where
  "update_automaton a =
     (case queue_loop (nodes a) (replicate (length (nodes a)) 0) (map snd (outs (nodes a ! 0))) of
        None \<Rightarrow> None
      | Some (ns, ft) \<Rightarrow> Some (a\<lparr>nodes := ns, fail_table := ft, uptodate := True\<rparr>))"

text \<open>
  The scanning loop of \<^verbatim>\<open>get_matches\<close>; \<open>idx\<close> is the position of the head of the
  remaining text, \<open>ms\<close> the matches collected so far.
\<close>

fun scan :: "Node list \<Rightarrow> nat list \<Rightarrow> nat \<Rightarrow> int \<Rightarrow> token list \<Rightarrow> Match list \<Rightarrow> Match list option" where
  "scan ns ft node_id idx [] ms = Some ms"
| "scan ns ft node_id idx (elem # rest) ms =
     (case follow_fail ns ft node_id elem of
        None \<Rightarrow> None
      | Some f \<Rightarrow>
         (case goto_node ns f elem of
            None \<Rightarrow> None
          | Some node \<Rightarrow>
              scan ns ft node (idx + 1) rest
                (if val (ns ! node) \<noteq> []
                 then ms @ map (\<lambda>resnode. (idx - depth (ns ! resnode), idx + 1, val (ns ! resnode)))
                                (matches (ns ! node))
                 else ms)))"

text \<open>
  \<^verbatim>\<open>get_matches\<close> returns the matches and leaves the automaton rebuilt when it was
  stale. \<^verbatim>\<open>remove_overlaps\<close> is declared in \<^verbatim>\<open>match.h\<close>, which is not among the sources:
  it is the parameter \<open>ro\<close>.
\<close>

definition get_matches :: "(Match list \<Rightarrow> Match list) \<Rightarrow> Automaton \<Rightarrow> token list \<Rightarrow> bool
    \<Rightarrow> (Automaton \<times> Match list) option" where
  "get_matches ro a text exclude_overlaps =
     (case (if \<not> uptodate a then update_automaton a else Some a) of
        None \<Rightarrow> None
      | Some a' \<Rightarrow>
         (case scan (nodes a') (fail_table a') 0 0 text [] of
            None \<Rightarrow> None
          | Some ms \<Rightarrow> Some (a', if exclude_overlaps then ro ms else ms)))"

section \<open>Invariants of the trie and of the failure table\<close>

text \<open>
  \<open>edge ns u k c\<close>: the node \<open>u\<close> of the store \<open>ns\<close> has an edge labelled \<open>k\<close> to \<open>c\<close>.
  A well-formed trie has a root of depth \<open>-1\<close>; every edge leads to a node with a larger
  id, inside the store, one level deeper; every other node has a depth of at least 0;
  a node has at most one incoming edge; and the keys of a node's edges are distinct.
\<close>

definition edge :: "Node list \<Rightarrow> nat \<Rightarrow> token \<Rightarrow> nat \<Rightarrow> bool" where
  "edge ns u k c = (u < length ns \<and> get_outnode (ns ! u) k = Some c)"

definition wf_trie :: "Node list \<Rightarrow> bool" where
  "wf_trie ns =
     (ns \<noteq> [] \<and> depth (ns ! 0) = - 1 \<and>
      (\<forall>u k c. edge ns u k c \<longrightarrow> u < c \<and> c < length ns \<and> depth (ns ! c) = depth (ns ! u) + 1) \<and>
      (\<forall>u < length ns. u \<noteq> 0 \<longrightarrow> 0 \<le> depth (ns ! u)) \<and>
      (\<forall>u u' k k' c. edge ns u k c \<and> edge ns u' k' c \<longrightarrow> u = u' \<and> k = k') \<and>
      (\<forall>u < length ns. distinct (map fst (outs (ns ! u)))))"

text \<open>
  One step of \<^verbatim>\<open>add\<close> that creates a node, and the relation between the store before and
  after an insertion: old edges stay, new edges lead to new nodes, old nodes keep depth,
  value and outputs, new nodes have neither value nor outputs.
\<close>

definition grow :: "Node list \<Rightarrow> nat \<Rightarrow> token \<Rightarrow> int \<Rightarrow> Node list" where
  "grow ns node elem d = ns[node := set_outnode (ns ! node) elem (length ns)] @ [new_Node d]"

definition trie_ext :: "Node list \<Rightarrow> Node list \<Rightarrow> bool" where
  "trie_ext ns ns' =
     (length ns \<le> length ns' \<and>
      (\<forall>u k c. edge ns u k c \<longrightarrow> edge ns' u k c) \<and>
      (\<forall>u k c. edge ns' u k c \<longrightarrow> edge ns u k c \<or> length ns \<le> c) \<and>
      (\<forall>u < length ns. depth (ns' ! u) = depth (ns ! u) \<and> val (ns' ! u) = val (ns ! u)
          \<and> matches (ns' ! u) = matches (ns ! u)) \<and>
      (\<forall>u. length ns \<le> u \<and> u < length ns' \<longrightarrow> val (ns' ! u) = [] \<and> matches (ns' ! u) = []))"

text \<open>
  What \<^verbatim>\<open>update_automaton\<close> leaves untouched in the store (it only appends to outputs),
  and what the lookups depend on.
\<close>

definition shape :: "Node list \<Rightarrow> (int \<times> string \<times> (token \<times> NodePtr) list) list" where
  "shape ns = map (\<lambda>n. (depth n, val n, outs n)) ns"

definition skel :: "Node list \<Rightarrow> (int \<times> (token \<times> NodePtr) list) list" where
  "skel ns = map (\<lambda>n. (depth n, outs n)) ns"

text \<open>
  A well-formed failure table has one entry per node, and the entry of a node is the root
  or a node of smaller depth: the measure by which the failure walks terminate.
\<close>

definition wf_fail :: "Node list \<Rightarrow> nat list \<Rightarrow> bool" where
  "wf_fail ns ft =
     (length ft = length ns \<and>
      (\<forall>x < length ns. ft ! x < length ns \<and> (ft ! x = 0 \<or> depth (ns ! (ft ! x)) < depth (ns ! x))))"

text \<open>
  The outputs of every node are existing nodes, and a node with a value is among its own
  outputs.
\<close>

definition wf_matches :: "Node list \<Rightarrow> bool" where
  "wf_matches ns =
     (\<forall>u < length ns. (\<forall>m \<in> set (matches (ns ! u)). m < length ns) \<and>
        (val (ns ! u) \<noteq> [] \<longrightarrow> u \<in> set (matches (ns ! u))))"

text \<open>
  The effect of one pass of the inner loop of \<^verbatim>\<open>update_automaton\<close> on the store, and the
  measure by which its queue loop terminates: a node in the queue weighs more than all
  of its children together, because children have larger ids.
\<close>

definition inherit :: "Node list \<Rightarrow> nat \<Rightarrow> nat \<Rightarrow> Node list" where
  "inherit ns dest g = ns[dest := (ns ! dest)\<lparr>matches := matches (ns ! dest) @ matches (ns ! g)\<rparr>]"

definition fanout :: "Node list \<Rightarrow> nat" where
  "fanout ns = Suc (sum_list (map (\<lambda>s. length (snd (snd s))) (shape ns)))"

definition weight :: "Node list \<Rightarrow> nat list \<Rightarrow> nat" where
  "weight ns Q = sum_list (map (\<lambda>q. fanout ns ^ (length ns - q)) Q)"

text \<open>Every node of the store is reached from the root by some token sequence.\<close>

definition all_reach :: "Node list \<Rightarrow> bool" where
  "all_reach ns = (\<forall>u < length ns. \<exists>p. find_loop ns 0 p = Some u)"

text \<open>The end of \<^verbatim>\<open>add\<close>: the value is stored in the last node, which joins its own outputs.\<close>

definition settle :: "Node list \<Rightarrow> nat \<Rightarrow> string \<Rightarrow> Node list" where
  "settle ns t v = ns[t := add_match (set_value (ns ! t) v) t]"

text \<open>
  The invariant of the automaton, and the automata that the constructor, \<^verbatim>\<open>add\<close>,
  \<^verbatim>\<open>update_automaton\<close> and \<^verbatim>\<open>get_matches\<close> can produce.
\<close>

definition invar :: "Automaton \<Rightarrow> bool" where
  "invar a = (wf_trie (nodes a) \<and> wf_matches (nodes a) \<and> all_reach (nodes a) \<and>
     (uptodate a \<longrightarrow> wf_fail (nodes a) (fail_table a)))"

inductive reachable :: "Automaton \<Rightarrow> bool" where
  init: "reachable Automaton_init"
| add: "reachable a \<Longrightarrow> reachable (add a pattern v)"
| build: "reachable a \<Longrightarrow> update_automaton a = Some a' \<Longrightarrow> reachable a'"
| matched: "reachable a \<Longrightarrow> get_matches ro a ts exclude_overlaps = Some (a', ms) \<Longrightarrow> reachable a'"

text \<open>
  The state of the scan after a text: the loop of \<^verbatim>\<open>get_matches\<close> without the collection
  of matches. \<open>run ns ft 0 (take (Suc k) ts)\<close> is the node in which the scan is after it
  has consumed the token at position \<open>k\<close> of \<open>ts\<close>.
\<close>

fun run :: "Node list \<Rightarrow> nat list \<Rightarrow> nat \<Rightarrow> token list \<Rightarrow> nat option" where
  "run ns ft node_id [] = Some node_id"
| "run ns ft node_id (elem # rest) =
     (case follow_fail ns ft node_id elem of
        None \<Rightarrow> None
      | Some f \<Rightarrow>
         (case goto_node ns f elem of
            None \<Rightarrow> None
          | Some node \<Rightarrow> run ns ft node rest))"

text \<open>
  The reading of the specification for lookups: a node \<open>t\<close> is reached by following the
  tokens of a prefix from a node \<open>n\<close>, one real edge per token.
\<close>

inductive follows :: "Node list \<Rightarrow> NodePtr \<Rightarrow> token list \<Rightarrow> NodePtr \<Rightarrow> bool" where
  here: "follows ns n [] n"
| step: "map_of (outs (ns ! n)) elem = Some c \<Longrightarrow> follows ns c rest t \<Longrightarrow> follows ns n (elem # rest) t"

section \<open>Properties of insertion\<close>

lemma upd_out_absent: "map_of es k = None \<Longrightarrow> upd_out k p es = es @ [(k, p)]"
  by (induction es) (auto split: if_splits)

lemma length_grow [simp]: "length (grow ns node elem d) = Suc (length ns)"
  by (simp add: grow_def)

lemma get_outnode_grow:
  assumes "node < length ns" "get_outnode (ns ! node) elem = None" "u \<le> length ns"
  shows "get_outnode (grow ns node elem d ! u) k =
           (if u = node \<and> k = elem then Some (length ns)
            else if u = length ns then None else get_outnode (ns ! u) k)"
  using assms
  by (cases "u = node")
     (auto simp: grow_def nth_append set_outnode_def get_outnode_def upd_out_absent new_Node_def
        map_add_def split: option.splits)

lemma edge_grow:
  assumes "node < length ns" "get_outnode (ns ! node) elem = None"
  shows "edge (grow ns node elem d) u k c \<longleftrightarrow> edge ns u k c \<or> (u = node \<and> k = elem \<and> c = length ns)"
  using assms by (auto simp: edge_def get_outnode_grow less_Suc_eq_le split: if_splits)

lemma depth_grow:
  "u \<le> length ns \<Longrightarrow> depth (grow ns node elem d ! u) = (if u = length ns then d else depth (ns ! u))"
  by (cases "u = node") (auto simp: grow_def nth_append set_outnode_def new_Node_def)

lemma outs_grow:
  assumes "node < length ns" "get_outnode (ns ! node) elem = None" "u \<le> length ns"
  shows "outs (grow ns node elem d ! u) =
           (if u = node then outs (ns ! u) @ [(elem, length ns)]
            else if u = length ns then [] else outs (ns ! u))"
  using assms
  by (cases "u = node")
     (auto simp: grow_def nth_append set_outnode_def get_outnode_def upd_out_absent new_Node_def)

lemma wf_trie_grow:
  assumes wf: "wf_trie ns" and n: "node < length ns" and g: "get_outnode (ns ! node) elem = None"
    and d: "depth (ns ! node) = d - 1"
  shows "wf_trie (grow ns node elem d)"
proof -
  have e: "\<And>u k c. edge (grow ns node elem d) u k c \<longleftrightarrow> edge ns u k c \<or> (u = node \<and> k = elem \<and> c = length ns)"
    using edge_grow [OF n g] by blast
  have old: "\<And>u k c. edge ns u k c \<Longrightarrow> u < c \<and> c < length ns \<and> depth (ns ! c) = depth (ns ! u) + 1"
    using wf by (auto simp: wf_trie_def)
  have ul: "\<And>u k c. edge ns u k c \<Longrightarrow> u < length ns" by (simp add: edge_def)
  have d0: "0 \<le> d" using wf n d by (cases "node = 0") (auto simp: wf_trie_def)
  have 1: "grow ns node elem d \<noteq> []" by (simp add: grow_def)
  have 2: "depth (grow ns node elem d ! 0) = - 1"
    using wf by (simp add: depth_grow wf_trie_def)
  have 3: "\<forall>u k c. edge (grow ns node elem d) u k c \<longrightarrow>
      u < c \<and> c < length (grow ns node elem d) \<and> depth (grow ns node elem d ! c) = depth (grow ns node elem d ! u) + 1"
  proof (intro allI impI)
    fix u k c assume "edge (grow ns node elem d) u k c"
    then consider "edge ns u k c" | "u = node \<and> k = elem \<and> c = length ns" using e by blast
    then show "u < c \<and> c < length (grow ns node elem d) \<and> depth (grow ns node elem d ! c) = depth (grow ns node elem d ! u) + 1"
    proof cases
      case 1
      from old [OF 1] ul [OF 1] show ?thesis by (simp add: depth_grow)
    next
      case 2
      then show ?thesis using n d by (simp add: depth_grow)
    qed
  qed
  have 4: "\<forall>u < length (grow ns node elem d). u \<noteq> 0 \<longrightarrow> 0 \<le> depth (grow ns node elem d ! u)"
    using wf d0 by (auto simp: depth_grow wf_trie_def less_Suc_eq)
  have 5: "\<forall>u u' k k' c. edge (grow ns node elem d) u k c \<and> edge (grow ns node elem d) u' k' c \<longrightarrow> u = u' \<and> k = k'"
  proof (intro allI impI)
    fix u u' k k' c
    assume a: "edge (grow ns node elem d) u k c \<and> edge (grow ns node elem d) u' k' c"
    have pu: "\<And>u u' k k' c. edge ns u k c \<Longrightarrow> edge ns u' k' c \<Longrightarrow> u = u' \<and> k = k'"
      using wf unfolding wf_trie_def by blast
    from a e old pu show "u = u' \<and> k = k'"
      by (metis less_irrefl)
  qed
  have 6: "\<forall>u < length (grow ns node elem d). distinct (map fst (outs (grow ns node elem d ! u)))"
  proof (intro allI impI)
    fix u assume "u < length (grow ns node elem d)"
    then have u: "u \<le> length ns" by simp
    have "elem \<notin> fst ` set (outs (ns ! node))"
      using g by (simp add: get_outnode_def map_of_eq_None_iff)
    moreover have "u < length ns \<Longrightarrow> distinct (map fst (outs (ns ! u)))"
      using wf by (simp add: wf_trie_def)
    ultimately show "distinct (map fst (outs (grow ns node elem d ! u)))"
      using u n by (auto simp: outs_grow [OF n g u])
  qed
  show ?thesis unfolding wf_trie_def using 1 2 3 4 5 6 by blast
qed

lemma trie_ext_refl: "trie_ext ns ns"
  by (auto simp: trie_ext_def)

lemma trie_ext_trans:
  assumes "trie_ext ns ns'" "trie_ext ns' ns''"
  shows "trie_ext ns ns''"
  unfolding trie_ext_def
proof (intro conjI allI impI)
  show "length ns \<le> length ns''" using assms by (simp add: trie_ext_def)
next
  fix u k c assume "edge ns u k c"
  then show "edge ns'' u k c"
    using assms unfolding trie_ext_def by blast
next
  fix u k c assume a: "edge ns'' u k c"
  then have "edge ns' u k c \<or> length ns' \<le> c"
    using assms(2) unfolding trie_ext_def by blast
  moreover have "length ns \<le> length ns'" using assms(1) by (simp add: trie_ext_def)
  ultimately show "edge ns u k c \<or> length ns \<le> c"
    using assms(1) unfolding trie_ext_def by (meson le_trans)
next
  fix u assume "u < length ns"
  moreover from this have "u < length ns'" using assms(1) by (simp add: trie_ext_def)
  ultimately show "depth (ns'' ! u) = depth (ns ! u)" "val (ns'' ! u) = val (ns ! u)"
    "matches (ns'' ! u) = matches (ns ! u)"
    using assms unfolding trie_ext_def by simp_all
next
  fix u assume a: "length ns \<le> u \<and> u < length ns''"
  show "val (ns'' ! u) = []"
  proof (cases "u < length ns'")
    case True
    then show ?thesis using a assms unfolding trie_ext_def by simp
  next
    case False
    then show ?thesis using a assms(2) unfolding trie_ext_def by simp
  qed
  show "matches (ns'' ! u) = []"
  proof (cases "u < length ns'")
    case True
    then show ?thesis using a assms unfolding trie_ext_def by simp
  next
    case False
    then show ?thesis using a assms(2) unfolding trie_ext_def by simp
  qed
qed

lemma trie_ext_grow:
  assumes "node < length ns" "get_outnode (ns ! node) elem = None"
  shows "trie_ext ns (grow ns node elem d)"
  unfolding trie_ext_def
proof (intro conjI allI impI)
  show "length ns \<le> length (grow ns node elem d)" by simp
next
  fix u k c assume "edge ns u k c"
  then show "edge (grow ns node elem d) u k c"
    using assms by (simp add: edge_grow)
next
  fix u k c assume "edge (grow ns node elem d) u k c"
  then show "edge ns u k c \<or> length ns \<le> c"
    using assms by (auto simp: edge_grow)
next
  fix u assume "u < length ns"
  then show "depth (grow ns node elem d ! u) = depth (ns ! u)"
    by (simp add: depth_grow)
  show "val (grow ns node elem d ! u) = val (ns ! u)" using \<open>u < length ns\<close>
    by (cases "u = node") (auto simp: grow_def nth_append set_outnode_def)
  show "matches (grow ns node elem d ! u) = matches (ns ! u)" using \<open>u < length ns\<close>
    by (cases "u = node") (auto simp: grow_def nth_append set_outnode_def)
next
  fix u assume "length ns \<le> u \<and> u < length (grow ns node elem d)"
  then have "u = length ns" by simp
  then show "val (grow ns node elem d ! u) = []" "matches (grow ns node elem d ! u) = []"
    by (simp_all add: grow_def new_Node_def nth_append)
qed

lemma add_loop_Cons:
  "add_loop a node d (elem # rest) =
     (case get_outnode (nodes a ! node) elem of
        Some outnode \<Rightarrow> add_loop (a\<lparr>alphabet := insert elem (alphabet a)\<rparr>) outnode (d + 1) rest
      | None \<Rightarrow> add_loop (a\<lparr>alphabet := insert elem (alphabet a),
                              nodes := grow (nodes a) node elem d\<rparr>) (length (nodes a)) (d + 1) rest)"
  by (simp add: grow_def Let_def split: option.splits)

lemma add_loop_props:
  assumes "wf_trie (nodes a)" "node < length (nodes a)" "depth (nodes a ! node) = d - 1"
    "add_loop a node d p = (a', t)"
  shows "wf_trie (nodes a') \<and> trie_ext (nodes a) (nodes a') \<and> t < length (nodes a')
     \<and> find_loop (nodes a') node p = Some t
     \<and> (\<forall>x. length (nodes a) \<le> x \<and> x < length (nodes a') \<longrightarrow>
           (\<exists>n. 0 < n \<and> n \<le> length p \<and> find_loop (nodes a') node (take n p) = Some x))
     \<and> uptodate a' = uptodate a \<and> fail_table a' = fail_table a"
  using assms
proof (induction p arbitrary: a node d)
  case Nil
  then show ?case by (auto simp: trie_ext_refl)
next
  case (Cons elem rest)
  show ?case
  proof (cases "get_outnode (nodes a ! node) elem")
    case (Some c)
    let ?a1 = "a\<lparr>alphabet := insert elem (alphabet a)\<rparr>"
    have e: "edge (nodes a) node elem c" using Some Cons.prems(2) by (simp add: edge_def)
    then have c: "c < length (nodes a)" "depth (nodes a ! c) = (d + 1) - 1"
      using Cons.prems(1,3) unfolding wf_trie_def by auto
    have al: "add_loop ?a1 c (d + 1) rest = (a', t)"
      using Cons.prems(4) Some by (simp add: add_loop_Cons del: add_loop.simps)
    have ih: "wf_trie (nodes a') \<and> trie_ext (nodes a) (nodes a') \<and> t < length (nodes a')
     \<and> find_loop (nodes a') c rest = Some t
     \<and> (\<forall>x. length (nodes a) \<le> x \<and> x < length (nodes a') \<longrightarrow>
           (\<exists>n. 0 < n \<and> n \<le> length rest \<and> find_loop (nodes a') c (take n rest) = Some x))
     \<and> uptodate a' = uptodate a \<and> fail_table a' = fail_table a"
      using Cons.IH [of ?a1 c "d + 1"] Cons.prems(1) c al by simp
    then have e': "edge (nodes a') node elem c" using e unfolding trie_ext_def by blast
    have "\<forall>x. length (nodes a) \<le> x \<and> x < length (nodes a') \<longrightarrow>
           (\<exists>n. 0 < n \<and> n \<le> length (elem # rest) \<and> find_loop (nodes a') node (take n (elem # rest)) = Some x)"
    proof (intro allI impI)
      fix x assume "length (nodes a) \<le> x \<and> x < length (nodes a')"
      then obtain n where "0 < n" "n \<le> length rest" "find_loop (nodes a') c (take n rest) = Some x"
        using ih by blast
      then have "0 < Suc n \<and> Suc n \<le> length (elem # rest) \<and> find_loop (nodes a') node (take (Suc n) (elem # rest)) = Some x"
        using e' by (simp add: edge_def)
      then show "\<exists>n. 0 < n \<and> n \<le> length (elem # rest) \<and> find_loop (nodes a') node (take n (elem # rest)) = Some x"
        by blast
    qed
    then show ?thesis using ih e' by (simp add: edge_def)
  next
    case None
    let ?ns = "grow (nodes a) node elem d"
    let ?a2 = "a\<lparr>alphabet := insert elem (alphabet a), nodes := ?ns\<rparr>"
    let ?c = "length (nodes a)"
    have al: "add_loop ?a2 ?c (d + 1) rest = (a', t)"
      using Cons.prems(4) None by (simp add: add_loop_Cons del: add_loop.simps)
    have wf2: "wf_trie ?ns" using wf_trie_grow [OF Cons.prems(1,2) None Cons.prems(3)] .
    have ext2: "trie_ext (nodes a) ?ns" using trie_ext_grow [OF Cons.prems(2) None] .
    have e2: "edge ?ns node elem ?c" using edge_grow [OF Cons.prems(2) None] by simp
    have ih: "wf_trie (nodes a') \<and> trie_ext ?ns (nodes a') \<and> t < length (nodes a')
     \<and> find_loop (nodes a') ?c rest = Some t
     \<and> (\<forall>x. length ?ns \<le> x \<and> x < length (nodes a') \<longrightarrow>
           (\<exists>n. 0 < n \<and> n \<le> length rest \<and> find_loop (nodes a') ?c (take n rest) = Some x))
     \<and> uptodate a' = uptodate a \<and> fail_table a' = fail_table a"
      using Cons.IH [of ?a2 ?c "d + 1"] wf2 al by (simp add: depth_grow)
    then have e': "edge (nodes a') node elem ?c" using e2 unfolding trie_ext_def by blast
    have ext: "trie_ext (nodes a) (nodes a')" using trie_ext_trans [OF ext2] ih by blast
    have "\<forall>x. length (nodes a) \<le> x \<and> x < length (nodes a') \<longrightarrow>
           (\<exists>n. 0 < n \<and> n \<le> length (elem # rest) \<and> find_loop (nodes a') node (take n (elem # rest)) = Some x)"
    proof (intro allI impI)
      fix x assume x: "length (nodes a) \<le> x \<and> x < length (nodes a')"
      show "\<exists>n. 0 < n \<and> n \<le> length (elem # rest) \<and> find_loop (nodes a') node (take n (elem # rest)) = Some x"
      proof (cases "x = ?c")
        case True
        then have "0 < Suc 0 \<and> Suc 0 \<le> length (elem # rest) \<and> find_loop (nodes a') node (take (Suc 0) (elem # rest)) = Some x"
          using e' by (simp add: edge_def)
        then show ?thesis by blast
      next
        case False
        then have "length ?ns \<le> x \<and> x < length (nodes a')" using x by simp
        then obtain n where "0 < n" "n \<le> length rest" "find_loop (nodes a') ?c (take n rest) = Some x"
          using ih by blast
        then have "0 < Suc n \<and> Suc n \<le> length (elem # rest) \<and> find_loop (nodes a') node (take (Suc n) (elem # rest)) = Some x"
          using e' by (simp add: edge_def)
        then show ?thesis by blast
      qed
    qed
    then show ?thesis using ih e' ext by (simp add: edge_def)
  qed
qed

section \<open>What the lookups and the builder depend on\<close>

lemma skel_shape: "skel ns = map (\<lambda>s. (fst s, snd (snd s))) (shape ns)"
  by (simp add: skel_def shape_def)

lemma shape_skel: "shape ns' = shape ns \<Longrightarrow> skel ns' = skel ns"
  by (simp only: skel_shape)

lemma skel_length: "skel ns' = skel ns \<Longrightarrow> length ns' = length ns"
  unfolding skel_def by (rule map_eq_imp_length_eq)

lemma skel_nth:
  assumes "skel ns' = skel ns" "u < length ns"
  shows "depth (ns' ! u) = depth (ns ! u)" "outs (ns' ! u) = outs (ns ! u)"
proof -
  have l: "u < length ns'" using skel_length [OF assms(1)] assms(2) by simp
  have a: "skel ns' ! u = (depth (ns' ! u), outs (ns' ! u))"
    using l by (simp add: skel_def)
  have b: "skel ns ! u = (depth (ns ! u), outs (ns ! u))"
    using assms(2) by (simp add: skel_def)
  have "(depth (ns' ! u), outs (ns' ! u)) = (depth (ns ! u), outs (ns ! u))"
    using a b by (simp only: assms(1))
  then show "depth (ns' ! u) = depth (ns ! u)" "outs (ns' ! u) = outs (ns ! u)"
    by simp_all
qed

lemma skel_edge:
  assumes "skel ns' = skel ns"
  shows "edge ns' u k c = edge ns u k c"
proof (cases "u < length ns")
  case True
  then show ?thesis
    using skel_length [OF assms] skel_nth(2) [OF assms True] by (simp add: edge_def get_outnode_def)
next
  case False
  then show ?thesis using skel_length [OF assms] by (simp add: edge_def)
qed

lemma skel_wf_trie:
  assumes "skel ns' = skel ns" "wf_trie ns"
  shows "wf_trie ns'"
proof -
  have l: "length ns' = length ns" using assms(1) by (rule skel_length)
  have d: "\<And>u. u < length ns \<Longrightarrow> depth (ns' ! u) = depth (ns ! u)"
    using skel_nth(1) [OF assms(1)] .
  have o: "\<And>u. u < length ns \<Longrightarrow> outs (ns' ! u) = outs (ns ! u)"
    using skel_nth(2) [OF assms(1)] .
  have e: "\<And>u k c. edge ns' u k c = edge ns u k c" using skel_edge [OF assms(1)] .
  have el: "\<And>u k c. edge ns u k c \<Longrightarrow> u < length ns" by (simp add: edge_def)
  have w: "ns \<noteq> []" "depth (ns ! 0) = - 1"
    using assms(2) by (simp_all add: wf_trie_def)
  have w3: "\<And>u k c. edge ns u k c \<Longrightarrow> u < c \<and> c < length ns \<and> depth (ns ! c) = depth (ns ! u) + 1"
    using assms(2) by (simp add: wf_trie_def)
  have w4: "\<And>u. u < length ns \<Longrightarrow> u \<noteq> 0 \<Longrightarrow> 0 \<le> depth (ns ! u)"
    using assms(2) by (simp add: wf_trie_def)
  have w5: "\<And>u u' k k' c. edge ns u k c \<Longrightarrow> edge ns u' k' c \<Longrightarrow> u = u' \<and> k = k'"
    using assms(2) unfolding wf_trie_def by blast
  have w6: "\<And>u. u < length ns \<Longrightarrow> distinct (map fst (outs (ns ! u)))"
    using assms(2) by (simp add: wf_trie_def)
  show ?thesis unfolding wf_trie_def
  proof (intro conjI allI impI)
    show "ns' \<noteq> []" using w(1) l by auto
    show "depth (ns' ! 0) = - 1" using w(1,2) d [of 0] by simp
  next
    fix u k c assume a: "edge ns' u k c"
    then have a': "edge ns u k c" using e by simp
    from w3 [OF a'] el [OF a']
    show "u < c" "c < length ns'" "depth (ns' ! c) = depth (ns' ! u) + 1"
      using l d by simp_all
  next
    fix u assume "u < length ns'" "u \<noteq> 0"
    then show "0 \<le> depth (ns' ! u)" using l d w4 by simp
  next
    fix u u' k k' c assume "edge ns' u k c \<and> edge ns' u' k' c"
    then have "u = u' \<and> k = k'" using e w5 by blast
    then show "u = u'" "k = k'" by simp_all
  next
    fix u assume "u < length ns'"
    then show "distinct (map fst (outs (ns' ! u)))" using l o w6 by simp
  qed
qed

lemma shape_length: "shape ns' = shape ns \<Longrightarrow> length ns' = length ns"
  using skel_length [OF shape_skel] .

lemma shape_nth:
  assumes "shape ns' = shape ns" "u < length ns"
  shows "depth (ns' ! u) = depth (ns ! u)" "val (ns' ! u) = val (ns ! u)" "outs (ns' ! u) = outs (ns ! u)"
proof -
  have l: "u < length ns'" using shape_length [OF assms(1)] assms(2) by simp
  have a: "shape ns' ! u = (depth (ns' ! u), val (ns' ! u), outs (ns' ! u))"
    using l by (simp add: shape_def)
  have b: "shape ns ! u = (depth (ns ! u), val (ns ! u), outs (ns ! u))"
    using assms(2) by (simp add: shape_def)
  have "(depth (ns' ! u), val (ns' ! u), outs (ns' ! u)) = (depth (ns ! u), val (ns ! u), outs (ns ! u))"
    using a b by (simp only: assms(1))
  then show "depth (ns' ! u) = depth (ns ! u)" "val (ns' ! u) = val (ns ! u)" "outs (ns' ! u) = outs (ns ! u)"
    by simp_all
qed

lemma shape_edge: "shape ns' = shape ns \<Longrightarrow> edge ns' u k c = edge ns u k c"
  using skel_edge [OF shape_skel] .

lemma shape_wf_trie: "shape ns' = shape ns \<Longrightarrow> wf_trie ns \<Longrightarrow> wf_trie ns'"
  using skel_wf_trie [OF shape_skel] .

lemma wf_trie_edgeD:
  assumes "wf_trie ns" "edge ns u k c"
  shows "u < c" "c < length ns" "depth (ns ! c) = depth (ns ! u) + 1" "u < length ns"
proof -
  have "u < c \<and> c < length ns \<and> depth (ns ! c) = depth (ns ! u) + 1"
    using assms by (simp add: wf_trie_def)
  then show "u < c" "c < length ns" "depth (ns ! c) = depth (ns ! u) + 1" by simp_all
  show "u < length ns" using assms(2) by (simp add: edge_def)
qed

lemma wf_trie_depth_ge: "wf_trie ns \<Longrightarrow> u < length ns \<Longrightarrow> - 1 \<le> depth (ns ! u)"
  by (cases "u = 0") (auto simp: wf_trie_def)

lemma wf_trie_depth_pos: "wf_trie ns \<Longrightarrow> u < length ns \<Longrightarrow> u \<noteq> 0 \<Longrightarrow> 0 \<le> depth (ns ! u)"
  by (auto simp: wf_trie_def)

lemma wf_trie_ne: "wf_trie ns \<Longrightarrow> 0 < length ns"
  by (auto simp: wf_trie_def)

lemma shape_wf_fail:
  assumes "shape ns' = shape ns" "wf_fail ns ft"
  shows "wf_fail ns' ft"
proof -
  have l: "length ns' = length ns" using assms(1) by (rule shape_length)
  have d: "\<And>u. u < length ns \<Longrightarrow> depth (ns' ! u) = depth (ns ! u)"
    using shape_nth(1) [OF assms(1)] .
  have f: "length ft = length ns"
    "\<And>x. x < length ns \<Longrightarrow> ft ! x < length ns"
    "\<And>x. x < length ns \<Longrightarrow> ft ! x = 0 \<or> depth (ns ! (ft ! x)) < depth (ns ! x)"
    using assms(2) by (simp_all add: wf_fail_def)
  show ?thesis unfolding wf_fail_def
  proof (intro conjI allI impI)
    show "length ft = length ns'" using f(1) l by simp
  next
    fix x assume "x < length ns'"
    then have x: "x < length ns" using l by simp
    show "ft ! x < length ns'" using f(2) [OF x] l by simp
    show "ft ! x = 0 \<or> depth (ns' ! (ft ! x)) < depth (ns' ! x)"
      using f(3) [OF x] d [OF x] d [OF f(2) [OF x]] by simp
  qed
qed

section \<open>Termination of the failure walk\<close>

lemma goto_node_cases:
  assumes "wf_trie ns" "f < length ns" "goto_node ns f e = Some g"
  shows "edge ns f e g \<or> (f = 0 \<and> g = 0)"
  using assms by (auto simp: goto_node_def edge_def get_outnode_def split: option.splits if_splits)

lemma goto_node_root: "\<exists>g. goto_node ns 0 e = Some g"
  by (auto simp: goto_node_def split: option.splits)

lemma shape_goto_node:
  "shape ns' = shape ns \<Longrightarrow> f < length ns \<Longrightarrow> goto_node ns' f e = goto_node ns f e"
  using shape_nth(3) [of ns' ns f] by (simp add: goto_node_def)

lemma follow_fail_total:
  assumes wf: "wf_trie ns" and ft: "wf_fail ns ft"
  shows "x < length ns \<Longrightarrow>
    \<exists>f. follow_fail ns ft x e = Some f \<and> f < length ns \<and> goto_node ns f e \<noteq> None
       \<and> (f = 0 \<or> f = x \<or> depth (ns ! f) < depth (ns ! x))"
proof (induction "nat (depth (ns ! x) + 1)" arbitrary: x rule: less_induct)
  case less
  show ?case
  proof (cases "goto_node ns x e")
    case (Some g)
    then have "follow_fail ns ft x e = Some x"
      using less.prems by (subst follow_fail.simps) simp
    then show ?thesis using less.prems Some by simp
  next
    case None
    have x0: "x \<noteq> 0"
    proof
      assume "x = 0"
      then show False using None goto_node_root [of ns e] by simp
    qed
    let ?y = "ft ! x"
    have xl: "x < length ft" using ft less.prems by (simp add: wf_fail_def)
    have y: "?y < length ns" "?y = 0 \<or> depth (ns ! ?y) < depth (ns ! x)"
      using ft less.prems unfolding wf_fail_def by blast+
    have step: "follow_fail ns ft x e = follow_fail ns ft ?y e"
      using less.prems None xl by (subst follow_fail.simps) simp
    have dx: "0 \<le> depth (ns ! x)" using wf_trie_depth_pos [OF wf less.prems x0] .
    have dy: "- 1 \<le> depth (ns ! ?y)" using wf_trie_depth_ge [OF wf y(1)] .
    have d0: "depth (ns ! 0) = - 1" using wf by (simp add: wf_trie_def)
    have "nat (depth (ns ! ?y) + 1) < nat (depth (ns ! x) + 1)"
      using y(2) dx dy d0 by auto
    from less.hyps [OF this y(1)] obtain f where
      f: "follow_fail ns ft ?y e = Some f" "f < length ns" "goto_node ns f e \<noteq> None"
         "f = 0 \<or> f = ?y \<or> depth (ns ! f) < depth (ns ! ?y)"
      by blast
    have df: "- 1 \<le> depth (ns ! f)" using wf_trie_depth_ge [OF wf f(2)] .
    have "f = 0 \<or> depth (ns ! f) < depth (ns ! x)"
    proof (cases "f = 0")
      case True
      then show ?thesis by simp
    next
      case False
      show ?thesis
      proof (cases "?y = 0")
        case True
        then have "depth (ns ! f) < - 1" using f(4) False d0 by auto
        then show ?thesis using df by simp
      next
        case False
        then have "depth (ns ! ?y) < depth (ns ! x)" using y(2) by simp
        moreover have "depth (ns ! f) \<le> depth (ns ! ?y)" using f(4) \<open>f \<noteq> 0\<close> by auto
        ultimately show ?thesis by simp
      qed
    qed
    then have "f = 0 \<or> f = x \<or> depth (ns ! f) < depth (ns ! x)" by blast
    moreover have "follow_fail ns ft x e = Some f" using step f(1) by (rule trans)
    ultimately show ?thesis using f(2,3) by blast
  qed
qed

section \<open>The builder returns and keeps the invariants\<close>

lemma length_inherit [simp]: "length (inherit ns dest g) = length ns"
  by (simp add: inherit_def)

lemma nth_inherit:
  "u < length ns \<Longrightarrow> inherit ns dest g ! u =
     (if u = dest then (ns ! dest)\<lparr>matches := matches (ns ! dest) @ matches (ns ! g)\<rparr> else ns ! u)"
  by (cases "u = dest") (simp_all add: inherit_def)

lemma shape_inherit: "shape (inherit ns dest g) = shape ns"
  unfolding shape_def
  by (rule nth_equalityI) (simp_all add: nth_inherit)

lemma matches_inherit:
  "u < length ns \<Longrightarrow> matches (inherit ns dest g ! u) =
     (if u = dest then matches (ns ! dest) @ matches (ns ! g) else matches (ns ! u))"
  by (simp add: nth_inherit)

lemma val_inherit: "u < length ns \<Longrightarrow> val (inherit ns dest g ! u) = val (ns ! u)"
  by (simp add: nth_inherit)

lemma wf_matches_inherit:
  assumes "wf_matches ns" "g < length ns"
  shows "wf_matches (inherit ns dest g)"
  unfolding wf_matches_def
proof (intro allI impI conjI ballI)
  fix u m assume u: "u < length (inherit ns dest g)" and m: "m \<in> set (matches (inherit ns dest g ! u))"
  have ul: "u < length ns" using u by simp
  have "m \<in> set (matches (ns ! u)) \<or> m \<in> set (matches (ns ! g))"
    using m ul by (auto simp: matches_inherit split: if_splits)
  then have "m < length ns" using assms ul unfolding wf_matches_def by blast
  then show "m < length (inherit ns dest g)" by simp
next
  fix u assume u: "u < length (inherit ns dest g)" and v: "val (inherit ns dest g ! u) \<noteq> []"
  have ul: "u < length ns" using u by simp
  then have "u \<in> set (matches (ns ! u))" using v assms(1) by (simp add: val_inherit wf_matches_def)
  then show "u \<in> set (matches (inherit ns dest g ! u))" using ul by (auto simp: matches_inherit)
qed

lemma wf_fail_update:
  assumes "wf_fail ns ft" "g < length ns" "g = 0 \<or> depth (ns ! g) < depth (ns ! dest)"
  shows "wf_fail ns (ft[dest := g])"
  unfolding wf_fail_def
proof (intro conjI allI impI)
  show "length (ft[dest := g]) = length ns" using assms(1) by (simp add: wf_fail_def)
next
  fix x assume x: "x < length ns"
  have old: "ft ! x < length ns" "ft ! x = 0 \<or> depth (ns ! (ft ! x)) < depth (ns ! x)"
    using assms(1) x by (simp_all add: wf_fail_def)
  have lf: "length ft = length ns" using assms(1) by (simp add: wf_fail_def)
  show "ft[dest := g] ! x < length ns"
  proof (cases "x = dest")
    case True
    then show ?thesis using x lf assms(2) by simp
  next
    case False
    then show ?thesis using old(1) by simp
  qed
  show "ft[dest := g] ! x = 0 \<or> depth (ns ! (ft[dest := g] ! x)) < depth (ns ! x)"
  proof (cases "x = dest")
    case True
    then have "ft[dest := g] ! x = g" using x lf by simp
    then show ?thesis using assms(3) True by simp
  next
    case False
    then have "ft[dest := g] ! x = ft ! x" by simp
    then show ?thesis using old(2) by simp
  qed
qed

lemma edge_of_mem:
  assumes "wf_trie ns" "u < length ns" "(k, c) \<in> set (outs (ns ! u))"
  shows "edge ns u k c"
proof -
  have "distinct (map fst (outs (ns ! u)))" using assms(1,2) by (simp add: wf_trie_def)
  then have "map_of (outs (ns ! u)) k = Some c" using assms(3) by simp
  then show ?thesis using assms(2) by (simp add: edge_def get_outnode_def)
qed

lemma for_outs_Cons:
  assumes "node_id < length ft" "follow_fail ns ft (ft ! node_id) key = Some f"
    "goto_node ns f key = Some g" "dest < length ft" "dest < length ns" "g < length ns"
  shows "for_outs node_id ((key, dest) # es) (ns, ft, Q) =
           for_outs node_id es (inherit ns dest g, ft[dest := g], Q @ [dest])"
  using assms by (simp add: inherit_def Let_def)

lemma for_outs_total:
  assumes "node_id < length ns" "node_id \<noteq> 0"
  shows "wf_trie ns \<Longrightarrow> wf_fail ns ft \<Longrightarrow> wf_matches ns \<Longrightarrow>
     (\<forall>(k, dest) \<in> set es. edge ns node_id k dest) \<Longrightarrow>
     \<exists>ns' ft'. for_outs node_id es (ns, ft, Q) = Some (ns', ft', Q @ map snd es)
        \<and> shape ns' = shape ns \<and> wf_fail ns' ft' \<and> wf_matches ns'"
proof (induction es arbitrary: ns ft Q)
  case Nil
  then show ?case by simp
next
  case (Cons e es)
  obtain key dest where e: "e = (key, dest)" by (cases e)
  have ed: "edge ns node_id key dest" using Cons.prems(4) e by simp
  have nl: "length ns = length ns" by simp
  have n: "node_id < length ns" using wf_trie_edgeD(4) [OF Cons.prems(1) ed] .
  have dd: "dest < length ns" "depth (ns ! dest) = depth (ns ! node_id) + 1"
    using wf_trie_edgeD [OF Cons.prems(1) ed] by simp_all
  have lf: "length ft = length ns" using Cons.prems(2) by (simp add: wf_fail_def)
  let ?y = "ft ! node_id"
  have y: "?y < length ns" "?y = 0 \<or> depth (ns ! ?y) < depth (ns ! node_id)"
    using Cons.prems(2) n unfolding wf_fail_def by blast+
  obtain f where f: "follow_fail ns ft ?y key = Some f" "f < length ns" "goto_node ns f key \<noteq> None"
     "f = 0 \<or> f = ?y \<or> depth (ns ! f) < depth (ns ! ?y)"
    using follow_fail_total [OF Cons.prems(1,2) y(1), of key] by blast
  obtain g where g: "goto_node ns f key = Some g" using f(3) by blast
  have d0: "depth (ns ! 0) = - 1" using Cons.prems(1) by (simp add: wf_trie_def)
  have dn: "0 \<le> depth (ns ! node_id)"
    using wf_trie_depth_pos [OF Cons.prems(1) n] assms(2) by simp
  have df: "f = 0 \<or> depth (ns ! f) < depth (ns ! node_id)"
  proof (cases "f = 0")
    case True
    then show ?thesis by simp
  next
    case False
    show ?thesis
    proof (cases "?y = 0")
      case True
      then have "depth (ns ! f) < - 1" using f(4) False d0 by auto
      then show ?thesis using wf_trie_depth_ge [OF Cons.prems(1) f(2)] by simp
    next
      case False
      then have "depth (ns ! ?y) < depth (ns ! node_id)" using y(2) by simp
      moreover have "depth (ns ! f) \<le> depth (ns ! ?y)" using f(4) \<open>f \<noteq> 0\<close> by auto
      ultimately show ?thesis by simp
    qed
  qed
  have gg: "g < length ns \<and> (g = 0 \<or> depth (ns ! g) < depth (ns ! dest))"
  proof -
    from goto_node_cases [OF Cons.prems(1) f(2) g]
    consider "edge ns f key g" | "f = 0 \<and> g = 0" by blast
    then show ?thesis
    proof cases
      case 1
      have "g < length ns" "depth (ns ! g) = depth (ns ! f) + 1"
        using wf_trie_edgeD [OF Cons.prems(1) 1] by simp_all
      then show ?thesis using df dd(2) dn d0 by auto
    next
      case 2
      then show ?thesis using wf_trie_ne [OF Cons.prems(1)] by simp
    qed
  qed
  let ?ns1 = "inherit ns dest g"
  let ?ft1 = "ft[dest := g]"
  have st: "for_outs node_id (e # es) (ns, ft, Q) = for_outs node_id es (?ns1, ?ft1, Q @ [dest])"
    unfolding e using n dd(1) lf f(1) g gg by (intro for_outs_Cons) simp_all
  have sh: "shape ?ns1 = shape ns" by (rule shape_inherit)
  have wf1: "wf_trie ?ns1" using shape_wf_trie [OF sh Cons.prems(1)] .
  have wff: "wf_fail ns ?ft1" using wf_fail_update [OF Cons.prems(2)] gg by blast
  have wff1: "wf_fail ?ns1 ?ft1" using shape_wf_fail [OF sh wff] .
  have wfm1: "wf_matches ?ns1" using wf_matches_inherit [OF Cons.prems(3)] gg by blast
  have es1: "\<forall>(k, dest) \<in> set es. edge ?ns1 node_id k dest"
    using Cons.prems(4) by (auto simp: shape_edge [OF sh])
  from Cons.IH [OF wf1 wff1 wfm1 es1, of "Q @ [dest]"]
  obtain ns' ft' where r: "for_outs node_id es (?ns1, ?ft1, Q @ [dest]) = Some (ns', ft', (Q @ [dest]) @ map snd es)"
     "shape ns' = shape ?ns1" "wf_fail ns' ft'" "wf_matches ns'"
    by blast
  have "shape ns' = shape ns" using r(2) sh by (rule trans)
  moreover have "for_outs node_id (e # es) (ns, ft, Q) = Some (ns', ft', Q @ map snd (e # es))"
    using st r(1) e by simp
  ultimately show ?case using r(3,4) by blast
qed

lemma fanout_pos: "0 < fanout ns"
  by (simp add: fanout_def)

lemma outs_lt_fanout:
  assumes "u < length ns"
  shows "length (outs (ns ! u)) < fanout ns"
proof -
  have "length (outs (ns ! u)) = map (\<lambda>s. length (snd (snd s))) (shape ns) ! u"
    using assms by (simp add: shape_def)
  also have "\<dots> \<le> sum_list (map (\<lambda>s. length (snd (snd s))) (shape ns))"
    by (rule elem_le_sum_list) (simp add: assms shape_def)
  finally show ?thesis by (simp add: fanout_def)
qed

lemma weight_shape: "shape ns' = shape ns \<Longrightarrow> weight ns' Q = weight ns Q"
  using shape_length [of ns' ns] by (simp only: weight_def fanout_def)

lemma weight_append: "weight ns (Q @ R) = weight ns Q + weight ns R"
  by (simp add: weight_def)

lemma weight_children:
  assumes "\<forall>c \<in> set cs. u < c"
  shows "weight ns cs \<le> length cs * fanout ns ^ (length ns - Suc u)"
  using assms
proof (induction cs)
  case Nil
  then show ?case by (simp add: weight_def)
next
  case (Cons c cs)
  have "u < c" using Cons.prems by simp
  then have "length ns - c \<le> length ns - Suc u" by simp
  then have "fanout ns ^ (length ns - c) \<le> fanout ns ^ (length ns - Suc u)"
    using fanout_pos [of ns] by (intro power_increasing) simp_all
  moreover have "weight ns cs \<le> length cs * fanout ns ^ (length ns - Suc u)"
    using Cons by simp
  moreover have "weight ns (c # cs) = fanout ns ^ (length ns - c) + weight ns cs"
    by (simp add: weight_def)
  ultimately show ?case by simp
qed

lemma weight_pop:
  assumes "wf_trie ns" "u < length ns"
  shows "weight ns (Q @ map snd (outs (ns ! u))) < weight ns (u # Q)"
proof -
  let ?cs = "map snd (outs (ns ! u))"
  have "\<forall>c \<in> set ?cs. u < c"
  proof
    fix c assume "c \<in> set ?cs"
    then obtain k where "(k, c) \<in> set (outs (ns ! u))" by auto
    then have "edge ns u k c" using edge_of_mem [OF assms] by simp
    then show "u < c" using wf_trie_edgeD(1) [OF assms(1)] by simp
  qed
  then have "weight ns ?cs \<le> length ?cs * fanout ns ^ (length ns - Suc u)"
    by (rule weight_children)
  also have "\<dots> < fanout ns * fanout ns ^ (length ns - Suc u)"
    using outs_lt_fanout [OF assms(2)] fanout_pos [of ns] by simp
  also have "\<dots> = fanout ns ^ (length ns - u)"
    using assms(2) by (simp add: Suc_diff_Suc flip: power_Suc)
  finally have "weight ns ?cs < fanout ns ^ (length ns - u)" .
  then show ?thesis by (simp add: weight_append) (simp add: weight_def)
qed

lemma queue_loop_Cons:
  assumes "node_id < length ns"
    "for_outs node_id (outs (ns ! node_id)) (ns, ft, Q) = Some (ns', ft', Q')"
  shows "queue_loop ns ft (node_id # Q) = queue_loop ns' ft' Q'"
  using assms by (subst queue_loop.simps) simp

lemma queue_loop_Nil: "queue_loop ns ft [] = Some (ns, ft)"
  by (subst queue_loop.simps) simp

lemma queue_loop_total:
  "wf_trie ns \<Longrightarrow> wf_fail ns ft \<Longrightarrow> wf_matches ns \<Longrightarrow> (\<forall>q \<in> set Q. q \<noteq> 0 \<and> q < length ns) \<Longrightarrow>
     \<exists>ns' ft'. queue_loop ns ft Q = Some (ns', ft') \<and> shape ns' = shape ns
        \<and> wf_fail ns' ft' \<and> wf_matches ns'"
proof (induction "weight ns Q" arbitrary: ns ft Q rule: less_induct)
  case less
  show ?case
  proof (cases Q)
    case Nil
    then show ?thesis using less.prems(2,3) by (simp add: queue_loop_Nil)
  next
    case (Cons u Q1)
    have u: "u \<noteq> 0" "u < length ns" using less.prems(4) Cons by simp_all
    have es: "\<forall>(k, dest) \<in> set (outs (ns ! u)). edge ns u k dest"
      using edge_of_mem [OF less.prems(1) u(2)] by blast
    from for_outs_total [OF u(2,1) less.prems(1,2,3) es, of Q1]
    obtain ns1 ft1 where r: "for_outs u (outs (ns ! u)) (ns, ft, Q1) = Some (ns1, ft1, Q1 @ map snd (outs (ns ! u)))"
      "shape ns1 = shape ns" "wf_fail ns1 ft1" "wf_matches ns1" by blast
    let ?Q2 = "Q1 @ map snd (outs (ns ! u))"
    have st: "queue_loop ns ft Q = queue_loop ns1 ft1 ?Q2"
      unfolding Cons using u(2) r(1) by (rule queue_loop_Cons)
    have wf1: "wf_trie ns1" using shape_wf_trie [OF r(2) less.prems(1)] .
    have l1: "length ns1 = length ns" using r(2) by (rule shape_length)
    have q2: "\<forall>q \<in> set ?Q2. q \<noteq> 0 \<and> q < length ns1"
    proof
      fix q assume "q \<in> set ?Q2"
      then consider "q \<in> set Q1" | "q \<in> snd ` set (outs (ns ! u))" by auto
      then show "q \<noteq> 0 \<and> q < length ns1"
      proof cases
        case 1
        then show ?thesis using less.prems(4) Cons l1 by simp
      next
        case 2
        then obtain k where "(k, q) \<in> set (outs (ns ! u))" by auto
        then have "edge ns u k q" using edge_of_mem [OF less.prems(1) u(2)] by simp
        then show ?thesis using wf_trie_edgeD(1,2) [OF less.prems(1)] l1 by fastforce
      qed
    qed
    have "weight ns1 ?Q2 = weight ns ?Q2" using r(2) by (rule weight_shape)
    also have "\<dots> < weight ns Q" unfolding Cons using less.prems(1) u(2) by (rule weight_pop)
    finally have m: "weight ns1 ?Q2 < weight ns Q" .
    from less.hyps [OF m wf1 r(3,4) q2]
    obtain ns' ft' where f: "queue_loop ns1 ft1 ?Q2 = Some (ns', ft')" "shape ns' = shape ns1"
      "wf_fail ns' ft'" "wf_matches ns'" by blast
    have "shape ns' = shape ns" using f(2) r(2) by (rule trans)
    moreover have "queue_loop ns ft Q = Some (ns', ft')" using st f(1) by (rule trans)
    ultimately show ?thesis using f(3,4) by blast
  qed
qed

section \<open>Paths in the trie\<close>

lemma skel_find_loop:
  assumes "skel ns' = skel ns" "wf_trie ns"
  shows "n < length ns \<Longrightarrow> find_loop ns' n p = find_loop ns n p"
proof (induction p arbitrary: n)
  case Nil
  then show ?case by simp
next
  case (Cons e p)
  have o: "get_outnode (ns' ! n) e = get_outnode (ns ! n) e"
    using skel_nth(2) [OF assms(1) Cons.prems] by (simp add: get_outnode_def)
  show ?case
  proof (cases "get_outnode (ns ! n) e")
    case None
    then show ?thesis using o by simp
  next
    case (Some c)
    then have "edge ns n e c" using Cons.prems by (simp add: edge_def)
    then have "c < length ns" using wf_trie_edgeD(2) [OF assms(2)] by simp
    then show ?thesis using Cons.IH [of c] o Some by simp
  qed
qed

lemma find_loop_depth:
  assumes "wf_trie ns"
  shows "n < length ns \<Longrightarrow> find_loop ns n p = Some t \<Longrightarrow>
     n \<le> t \<and> t < length ns \<and> depth (ns ! t) = depth (ns ! n) + int (length p)"
proof (induction p arbitrary: n)
  case Nil
  then show ?case by simp
next
  case (Cons e p)
  from Cons.prems(2) obtain c where c: "get_outnode (ns ! n) e = Some c" "find_loop ns c p = Some t"
    by (auto split: option.splits)
  then have ed: "edge ns n e c" using Cons.prems(1) by (simp add: edge_def)
  have cc: "n < c" "c < length ns" "depth (ns ! c) = depth (ns ! n) + 1"
    using wf_trie_edgeD [OF assms ed] by simp_all
  from Cons.IH [OF cc(2) c(2)] cc show ?case by simp
qed

lemma find_loop_append:
  "find_loop ns n (p @ q) = (case find_loop ns n p of None \<Rightarrow> None | Some u \<Rightarrow> find_loop ns u q)"
  by (induction p arbitrary: n) (simp_all split: option.splits)

lemma find_loop_snoc:
  assumes "find_loop ns n (p @ [e]) = Some t"
  shows "\<exists>u. find_loop ns n p = Some u \<and> get_outnode (ns ! u) e = Some t"
  using assms by (auto simp: find_loop_append split: option.splits)

lemma find_loop_unique:
  assumes wf: "wf_trie ns" and n: "n < length ns"
  shows "find_loop ns n p = Some t \<Longrightarrow> find_loop ns n q = Some t \<Longrightarrow> p = q"
proof (induction p arbitrary: q t rule: rev_induct)
  case Nil
  have "depth (ns ! t) = depth (ns ! n) + int (length q)"
    using find_loop_depth [OF wf n Nil.prems(2)] by simp
  moreover have "t = n" using Nil.prems(1) by simp
  ultimately show ?case by simp
next
  case (snoc e p)
  have dp: "depth (ns ! t) = depth (ns ! n) + int (length (p @ [e]))"
    using find_loop_depth [OF wf n snoc.prems(1)] by simp
  have dq: "depth (ns ! t) = depth (ns ! n) + int (length q)"
    using find_loop_depth [OF wf n snoc.prems(2)] by simp
  have "q \<noteq> []" using dp dq by auto
  then obtain q' e' where q: "q = q' @ [e']" by (metis rev_exhaust)
  obtain u where u: "find_loop ns n p = Some u" "get_outnode (ns ! u) e = Some t"
    using find_loop_snoc [OF snoc.prems(1)] by blast
  obtain u' where u': "find_loop ns n q' = Some u'" "get_outnode (ns ! u') e' = Some t"
    using find_loop_snoc snoc.prems(2) q by blast
  have "u < length ns" "u' < length ns"
    using find_loop_depth [OF wf n u(1)] find_loop_depth [OF wf n u'(1)] by simp_all
  then have "edge ns u e t" "edge ns u' e' t" using u(2) u'(2) by (simp_all add: edge_def)
  then have "u = u' \<and> e = e'" using wf unfolding wf_trie_def by blast
  then have "p = q'" "e = e'" using snoc.IH [OF u(1)] u'(1) by simp_all
  then show ?case using q by simp
qed

section \<open>Building and scanning return\<close>

lemma update_automaton_total:
  assumes "wf_trie (nodes a)" "wf_matches (nodes a)"
  shows "\<exists>a'. update_automaton a = Some a' \<and> shape (nodes a') = shape (nodes a)
       \<and> wf_fail (nodes a') (fail_table a') \<and> wf_matches (nodes a') \<and> uptodate a'
       \<and> alphabet a' = alphabet a"
proof -
  let ?ns = "nodes a"
  let ?ft = "replicate (length ?ns) (0::nat)"
  let ?Q = "map snd (outs (?ns ! 0))"
  have l: "0 < length ?ns" using wf_trie_ne [OF assms(1)] .
  have wff: "wf_fail ?ns ?ft" using l by (simp add: wf_fail_def)
  have q: "\<forall>q \<in> set ?Q. q \<noteq> 0 \<and> q < length ?ns"
  proof
    fix q assume "q \<in> set ?Q"
    then obtain k where "(k, q) \<in> set (outs (?ns ! 0))" by auto
    then have "edge ?ns 0 k q" using edge_of_mem [OF assms(1) l] by simp
    then show "q \<noteq> 0 \<and> q < length ?ns" using wf_trie_edgeD(1,2) [OF assms(1)] by fastforce
  qed
  from queue_loop_total [OF assms(1) wff assms(2) q]
  obtain ns' ft' where r: "queue_loop ?ns ?ft ?Q = Some (ns', ft')" "shape ns' = shape ?ns"
    "wf_fail ns' ft'" "wf_matches ns'" by blast
  have "update_automaton a = Some (a\<lparr>nodes := ns', fail_table := ft', uptodate := True\<rparr>)"
    using r(1) by (simp add: update_automaton_def)
  then show ?thesis using r(2,3,4) by simp
qed

lemma scan_total:
  assumes wf: "wf_trie ns" and ft: "wf_fail ns ft"
  shows "node_id < length ns \<Longrightarrow> \<exists>ms'. scan ns ft node_id idx ts ms = Some ms'"
proof (induction ts arbitrary: node_id idx ms)
  case Nil
  then show ?case by simp
next
  case (Cons e ts)
  obtain f where f: "follow_fail ns ft node_id e = Some f" "f < length ns" "goto_node ns f e \<noteq> None"
    using follow_fail_total [OF wf ft Cons.prems, of e] by blast
  obtain g where g: "goto_node ns f e = Some g" using f(3) by blast
  have "g < length ns"
    using goto_node_cases [OF wf f(2) g] wf_trie_edgeD(2) [OF wf] wf_trie_ne [OF wf] by auto
  from Cons.IH [OF this] show ?case using f(1) g by simp
qed

section \<open>Insertion keeps the invariants\<close>

lemma skel_all_reach:
  assumes "skel ns' = skel ns" "wf_trie ns" "all_reach ns"
  shows "all_reach ns'"
  unfolding all_reach_def
proof (intro allI impI)
  fix u assume "u < length ns'"
  then have "u < length ns" using skel_length [OF assms(1)] by simp
  then obtain p where "find_loop ns 0 p = Some u" using assms(3) unfolding all_reach_def by blast
  then have "find_loop ns' 0 p = Some u"
    using skel_find_loop [OF assms(1,2) wf_trie_ne [OF assms(2)]] by simp
  then show "\<exists>p. find_loop ns' 0 p = Some u" by blast
qed

lemma nth_settle:
  "u < length ns \<Longrightarrow> settle ns t v ! u =
     (if u = t then add_match (set_value (ns ! t) v) t else ns ! u)"
  by (cases "u = t") (simp_all add: settle_def)

lemma length_settle [simp]: "length (settle ns t v) = length ns"
  by (simp add: settle_def)

lemma skel_settle: "skel (settle ns t v) = skel ns"
  unfolding skel_def
  by (rule nth_equalityI) (simp_all add: nth_settle add_match_def set_value_def)

lemma val_settle: "u < length ns \<Longrightarrow> val (settle ns t v ! u) = (if u = t then v else val (ns ! u))"
  by (simp add: nth_settle add_match_def set_value_def)

lemma matches_settle:
  "u < length ns \<Longrightarrow> set (matches (settle ns t v ! u)) =
     (if u = t then insert t (set (matches (ns ! u))) else set (matches (ns ! u)))"
  by (auto simp: nth_settle add_match_def set_value_def)

lemma add_eq:
  "add_loop a 0 0 p = (a1, t) \<Longrightarrow>
     add a p v = a1\<lparr>nodes := settle (nodes a1) t v, uptodate := False\<rparr>"
  by (simp add: add_def settle_def)

lemma find_loop_ext:
  assumes "trie_ext ns ns'" "wf_trie ns"
  shows "n < length ns \<Longrightarrow> find_loop ns n q = Some t \<Longrightarrow> find_loop ns' n q = Some t"
proof (induction q arbitrary: n)
  case Nil
  then show ?case by simp
next
  case (Cons e q)
  from Cons.prems(2) obtain c where c: "get_outnode (ns ! n) e = Some c" "find_loop ns c q = Some t"
    by (auto split: option.splits)
  then have ed: "edge ns n e c" using Cons.prems(1) by (simp add: edge_def)
  then have "edge ns' n e c" using assms(1) unfolding trie_ext_def by blast
  then have g: "get_outnode (ns' ! n) e = Some c" by (simp add: edge_def)
  have "c < length ns" using wf_trie_edgeD(2) [OF assms(2) ed] .
  from Cons.IH [OF this c(2)] g show ?case by simp
qed

lemma find_loop_ext_back:
  assumes "trie_ext ns ns'" "wf_trie ns'" "t < length ns"
  shows "n < length ns \<Longrightarrow> find_loop ns' n q = Some t \<Longrightarrow> find_loop ns n q = Some t"
proof (induction q arbitrary: n)
  case Nil
  then show ?case by simp
next
  case (Cons e q)
  have ll: "length ns \<le> length ns'" using assms(1) by (simp add: trie_ext_def)
  from Cons.prems(2) obtain c where c: "get_outnode (ns' ! n) e = Some c" "find_loop ns' c q = Some t"
    by (auto split: option.splits)
  then have ed: "edge ns' n e c" using Cons.prems(1) ll by (simp add: edge_def)
  have "c < length ns'" using wf_trie_edgeD(2) [OF assms(2) ed] .
  then have "c \<le> t" using find_loop_depth [OF assms(2) _ c(2)] by simp
  then have cl: "c < length ns" using assms(3) by simp
  then have "edge ns n e c" using ed assms(1) unfolding trie_ext_def by fastforce
  then have g: "get_outnode (ns ! n) e = Some c" by (simp add: edge_def)
  from Cons.IH [OF cl c(2)] g show ?case by simp
qed

lemma wf_trie_init: "wf_trie (nodes Automaton_init)"
  by (simp add: wf_trie_def Automaton_init_def new_Node_def edge_def get_outnode_def)

lemma invar_init: "invar Automaton_init"
  unfolding invar_def
proof (intro conjI)
  show "wf_trie (nodes Automaton_init)" by (rule wf_trie_init)
  show "wf_matches (nodes Automaton_init)"
    by (simp add: wf_matches_def Automaton_init_def new_Node_def)
  have "find_loop (nodes Automaton_init) 0 [] = Some 0" by simp
  then have "\<exists>p. find_loop (nodes Automaton_init) 0 p = Some 0" by blast
  moreover have "length (nodes Automaton_init) = 1" by (simp add: Automaton_init_def)
  ultimately show "all_reach (nodes Automaton_init)"
    unfolding all_reach_def by simp
  show "uptodate Automaton_init \<longrightarrow> wf_fail (nodes Automaton_init) (fail_table Automaton_init)"
    by (simp add: Automaton_init_def)
qed

lemma add_loop_root:
  assumes "wf_trie (nodes a)" "add_loop a 0 0 p = (a1, t)"
  shows "wf_trie (nodes a1)" "trie_ext (nodes a) (nodes a1)" "t < length (nodes a1)"
    "find_loop (nodes a1) 0 p = Some t"
    "\<And>x. length (nodes a) \<le> x \<Longrightarrow> x < length (nodes a1) \<Longrightarrow>
        \<exists>n. 0 < n \<and> n \<le> length p \<and> find_loop (nodes a1) 0 (take n p) = Some x"
    "uptodate a1 = uptodate a" "fail_table a1 = fail_table a"
proof -
  have d: "depth (nodes a ! 0) = 0 - 1" using assms(1) by (simp add: wf_trie_def)
  note P = add_loop_props [OF assms(1) wf_trie_ne [OF assms(1)] d assms(2)]
  show "wf_trie (nodes a1)" "trie_ext (nodes a) (nodes a1)" "t < length (nodes a1)"
    "find_loop (nodes a1) 0 p = Some t" "uptodate a1 = uptodate a" "fail_table a1 = fail_table a"
    using P by blast+
  show "\<And>x. length (nodes a) \<le> x \<Longrightarrow> x < length (nodes a1) \<Longrightarrow>
        \<exists>n. 0 < n \<and> n \<le> length p \<and> find_loop (nodes a1) 0 (take n p) = Some x"
    using P by blast
qed

lemma wf_matches_ext:
  assumes "trie_ext ns ns'" "wf_matches ns"
  shows "wf_matches ns'"
  unfolding wf_matches_def
proof (intro allI impI)
  fix u assume u: "u < length ns'"
  have ll: "length ns \<le> length ns'" using assms(1) by (simp add: trie_ext_def)
  show "(\<forall>m \<in> set (matches (ns' ! u)). m < length ns') \<and>
        (val (ns' ! u) \<noteq> [] \<longrightarrow> u \<in> set (matches (ns' ! u)))"
  proof (cases "u < length ns")
    case True
    then have e: "val (ns' ! u) = val (ns ! u)" "matches (ns' ! u) = matches (ns ! u)"
      using assms(1) by (simp_all add: trie_ext_def)
    have "(\<forall>m \<in> set (matches (ns ! u)). m < length ns) \<and>
        (val (ns ! u) \<noteq> [] \<longrightarrow> u \<in> set (matches (ns ! u)))"
      using assms(2) True by (simp add: wf_matches_def)
    then show ?thesis using e ll by fastforce
  next
    case False
    then have "val (ns' ! u) = [] \<and> matches (ns' ! u) = []"
      using assms(1) u by (simp add: trie_ext_def)
    then show ?thesis by simp
  qed
qed

lemma wf_matches_settle:
  assumes "wf_matches ns" "t < length ns"
  shows "wf_matches (settle ns t v)"
  unfolding wf_matches_def
proof (intro allI impI)
  fix u assume "u < length (settle ns t v)"
  then have u: "u < length ns" by simp
  have old: "\<forall>m \<in> set (matches (ns ! u)). m < length ns"
    "val (ns ! u) \<noteq> [] \<longrightarrow> u \<in> set (matches (ns ! u))"
    using assms(1) u by (simp_all add: wf_matches_def)
  show "(\<forall>m \<in> set (matches (settle ns t v ! u)). m < length (settle ns t v)) \<and>
        (val (settle ns t v ! u) \<noteq> [] \<longrightarrow> u \<in> set (matches (settle ns t v ! u)))"
    using old assms(2) by (simp add: matches_settle [OF u] val_settle [OF u])
qed

lemma all_reach_ext:
  assumes "wf_trie (nodes a)" "all_reach (nodes a)" "add_loop a 0 0 p = (a1, t)"
  shows "all_reach (nodes a1)"
  unfolding all_reach_def
proof (intro allI impI)
  fix u assume u: "u < length (nodes a1)"
  note R = add_loop_root [OF assms(1,3)]
  show "\<exists>q. find_loop (nodes a1) 0 q = Some u"
  proof (cases "u < length (nodes a)")
    case True
    then obtain q where "find_loop (nodes a) 0 q = Some u"
      using assms(2) unfolding all_reach_def by blast
    then have "find_loop (nodes a1) 0 q = Some u"
      using find_loop_ext [OF R(2) assms(1) wf_trie_ne [OF assms(1)]] by simp
    then show ?thesis by blast
  next
    case False
    then have "length (nodes a) \<le> u" by simp
    from R(5) [OF this u] show ?thesis by blast
  qed
qed

lemma invar_add:
  assumes "invar a"
  shows "invar (add a p v)"
proof -
  obtain a1 t where al: "add_loop a 0 0 p = (a1, t)" by (cases "add_loop a 0 0 p")
  have i: "wf_trie (nodes a)" "wf_matches (nodes a)" "all_reach (nodes a)"
    using assms by (simp_all add: invar_def)
  note R = add_loop_root [OF i(1) al]
  have eq: "add a p v = a1\<lparr>nodes := settle (nodes a1) t v, uptodate := False\<rparr>"
    using al by (rule add_eq)
  have sk: "skel (settle (nodes a1) t v) = skel (nodes a1)" by (rule skel_settle)
  have "wf_trie (settle (nodes a1) t v)" using skel_wf_trie [OF sk R(1)] .
  moreover have "wf_matches (settle (nodes a1) t v)"
    using wf_matches_settle [OF wf_matches_ext [OF R(2) i(2)] R(3)] .
  moreover have "all_reach (settle (nodes a1) t v)"
    using skel_all_reach [OF sk R(1) all_reach_ext [OF i(1,3) al]] .
  ultimately show ?thesis unfolding invar_def eq by simp
qed

lemma invar_build:
  assumes "invar a"
  shows "\<exists>a'. update_automaton a = Some a' \<and> invar a' \<and> uptodate a'
     \<and> shape (nodes a') = shape (nodes a) \<and> alphabet a' = alphabet a"
proof -
  have i: "wf_trie (nodes a)" "wf_matches (nodes a)" "all_reach (nodes a)"
    using assms by (simp_all add: invar_def)
  from update_automaton_total [OF i(1,2)]
  obtain a' where r: "update_automaton a = Some a'" "shape (nodes a') = shape (nodes a)"
    "wf_fail (nodes a') (fail_table a')" "wf_matches (nodes a')" "uptodate a'" "alphabet a' = alphabet a"
    by blast
  have sk: "skel (nodes a') = skel (nodes a)" using r(2) by (rule shape_skel)
  have "invar a'" unfolding invar_def
    using skel_wf_trie [OF sk i(1)] skel_all_reach [OF sk i(1,3)] r(3,4) by simp
  then show ?thesis using r by blast
qed

lemma get_matches_fresh:
  assumes "uptodate a"
  shows "get_matches ro a ts ex =
     (case scan (nodes a) (fail_table a) 0 0 ts [] of
        None \<Rightarrow> None | Some ms \<Rightarrow> Some (a, if ex then ro ms else ms))"
  using assms by (simp add: get_matches_def)

lemma get_matches_stale:
  assumes "\<not> uptodate a" "update_automaton a = Some b"
  shows "get_matches ro a ts ex =
     (case scan (nodes b) (fail_table b) 0 0 ts [] of
        None \<Rightarrow> None | Some ms \<Rightarrow> Some (b, if ex then ro ms else ms))"
  using assms by (simp add: get_matches_def)

lemma get_matches_total:
  assumes "invar a"
  shows "\<exists>a' ms0. get_matches ro a ts ex = Some (a', if ex then ro ms0 else ms0)
     \<and> scan (nodes a') (fail_table a') 0 0 ts [] = Some ms0
     \<and> (if uptodate a then a' = a else update_automaton a = Some a')
     \<and> invar a' \<and> uptodate a'"
proof (cases "uptodate a")
  case True
  have i: "wf_trie (nodes a)" "wf_fail (nodes a) (fail_table a)"
    using assms True by (simp_all add: invar_def)
  obtain ms0 where s: "scan (nodes a) (fail_table a) 0 0 ts [] = Some ms0"
    using scan_total [OF i wf_trie_ne [OF i(1)]] by blast
  then have "get_matches ro a ts ex = Some (a, if ex then ro ms0 else ms0)"
    using True by (simp add: get_matches_fresh)
  then show ?thesis using s True assms by auto
next
  case False
  obtain b where b: "update_automaton a = Some b" "invar b" "uptodate b"
    using invar_build [OF assms] by blast
  have i: "wf_trie (nodes b)" "wf_fail (nodes b) (fail_table b)"
    using b(2,3) by (simp_all add: invar_def)
  obtain ms0 where s: "scan (nodes b) (fail_table b) 0 0 ts [] = Some ms0"
    using scan_total [OF i wf_trie_ne [OF i(1)]] by blast
  then have "get_matches ro a ts ex = Some (b, if ex then ro ms0 else ms0)"
    using False b(1) by (simp add: get_matches_stale)
  then show ?thesis using s False b by auto
qed

lemma reachable_invar: "reachable a \<Longrightarrow> invar a"
proof (induction rule: reachable.induct)
  case init
  show ?case by (rule invar_init)
next
  case (add a pattern v)
  then show ?case by (simp add: invar_add)
next
  case (build a a')
  then show ?case using invar_build [of a] by auto
next
  case (matched a ro ts exclude_overlaps a' ms)
  then show ?case using get_matches_total [of a ro ts exclude_overlaps] by auto
qed

section \<open>Lookups follow edges\<close>

lemma follows_find_loop: "follows ns n p t \<Longrightarrow> find_loop ns n p = Some t"
  by (induction rule: follows.induct) (simp_all add: get_outnode_def)

lemma find_loop_follows: "find_loop ns n p = Some t \<Longrightarrow> follows ns n p t"
proof (induction p arbitrary: n)
  case Nil
  then show ?case by (simp add: follows.here)
next
  case (Cons e p)
  then obtain c where "map_of (outs (ns ! n)) e = Some c" "find_loop ns c p = Some t"
    by (auto simp: get_outnode_def split: option.splits)
  then show ?case using Cons.IH follows.step by blast
qed

section \<open>The failure table depends only on the trie\<close>

text \<open>
  The builder reads depths, values and edges, never the outputs: two stores that differ
  only in outputs get the same failure table. So a repeated build, in a row or after a
  further insertion, computes the failure table that one build of the final trie
  computes, and sets the flag; only the outputs are not rebuilt.
\<close>

lemma follow_fail_shape_aux:
  assumes "follow_fail ns ft x e = Some f"
  shows "\<forall>ns'. shape ns' = shape ns \<longrightarrow> follow_fail ns' ft x e = Some f"
  apply (rule follow_fail.raw_induct
      [where P = "\<lambda>ns ft x e f. \<forall>ns'. shape ns' = shape ns \<longrightarrow> follow_fail ns' ft x e = Some f",
        OF _ assms])
  subgoal premises p for ff ns ft x e f
  proof (intro allI impI)
    fix ns' assume sh: "shape ns' = shape ns"
    have l: "length ns' = length ns" using sh by (rule shape_length)
    have xl: "x < length ns" using p(2) by (simp split: if_splits)
    have g: "goto_node ns' x e = goto_node ns x e" using shape_goto_node [OF sh xl] .
    show "follow_fail ns' ft x e = Some f"
    proof (cases "goto_node ns x e")
      case (Some q)
      then have "f = x" using p(2) xl by simp
      then show ?thesis using Some g xl l by (subst follow_fail.simps) simp
    next
      case None
      then have n: "x < length ft" "ff ns ft (ft ! x) e = Some f"
        using p(2) xl by (simp_all split: if_splits)
      have "follow_fail ns' ft (ft ! x) e = Some f" using p(1) [OF n(2)] sh by blast
      then show ?thesis using None g xl l n(1) by (subst follow_fail.simps) simp
    qed
  qed
  done

lemma follow_fail_shape:
  "follow_fail ns ft x e = Some f \<Longrightarrow> shape ns' = shape ns \<Longrightarrow> follow_fail ns' ft x e = Some f"
  using follow_fail_shape_aux by blast

lemma for_outs_ConsD:
  assumes "for_outs node_id ((key, dest) # es) (ns, ft, Q) = Some r"
  shows "\<exists>f g. node_id < length ft \<and> follow_fail ns ft (ft ! node_id) key = Some f
     \<and> goto_node ns f key = Some g \<and> dest < length ft \<and> dest < length ns \<and> g < length ns
     \<and> for_outs node_id es (inherit ns dest g, ft[dest := g], Q @ [dest]) = Some r"
  using assms by (simp add: inherit_def Let_def split: if_splits option.splits)

lemma follow_fail_bound:
  assumes "follow_fail ns ft x e = Some f"
  shows "f < length ns"
  apply (rule follow_fail.raw_induct [where P = "\<lambda>ns ft x e f. f < length ns", OF _ assms])
  subgoal premises p for ff ns ft x e f
    using p by (auto split: if_splits option.splits)
  done

lemma for_outs_shape:
  "for_outs node_id es (ns1, ft, Q) = Some (ns1', ft', Q') \<Longrightarrow> shape ns2 = shape ns1 \<Longrightarrow>
     \<exists>ns2'. for_outs node_id es (ns2, ft, Q) = Some (ns2', ft', Q') \<and> shape ns2' = shape ns1'"
proof (induction es arbitrary: ns1 ns2 ft Q)
  case Nil
  then show ?case by simp
next
  case (Cons e es)
  obtain key dest where e: "e = (key, dest)" by (cases e)
  from for_outs_ConsD [OF Cons.prems(1) [unfolded e]]
  obtain f g where s: "node_id < length ft" "follow_fail ns1 ft (ft ! node_id) key = Some f"
    "goto_node ns1 f key = Some g" "dest < length ft" "dest < length ns1" "g < length ns1"
    "for_outs node_id es (inherit ns1 dest g, ft[dest := g], Q @ [dest]) = Some (ns1', ft', Q')"
    by blast
  have l: "length ns2 = length ns1" using Cons.prems(2) by (rule shape_length)
  have fl: "f < length ns1" using follow_fail_bound [OF s(2)] .
  have f2: "follow_fail ns2 ft (ft ! node_id) key = Some f"
    using follow_fail_shape [OF s(2) Cons.prems(2)] .
  have g2: "goto_node ns2 f key = Some g" using shape_goto_node [OF Cons.prems(2) fl] s(3) by simp
  have st: "for_outs node_id (e # es) (ns2, ft, Q) =
      for_outs node_id es (inherit ns2 dest g, ft[dest := g], Q @ [dest])"
    unfolding e using s(1) f2 g2 s(4) s(5,6) l by (intro for_outs_Cons) simp_all
  have sh: "shape (inherit ns2 dest g) = shape (inherit ns1 dest g)"
    using shape_inherit [of ns2 dest g] shape_inherit [of ns1 dest g] Cons.prems(2) by (simp only:)
  from Cons.IH [OF s(7) sh]
  obtain ns2' where "for_outs node_id es (inherit ns2 dest g, ft[dest := g], Q @ [dest]) = Some (ns2', ft', Q')"
    "shape ns2' = shape ns1'" by blast
  then show ?case using st by simp
qed

lemma for_outs_keeps_shape:
  "for_outs node_id es (ns, ft, Q) = Some (ns', ft', Q') \<Longrightarrow> shape ns' = shape ns"
proof (induction es arbitrary: ns ft Q)
  case Nil
  then show ?case by simp
next
  case (Cons e es)
  obtain key dest where e: "e = (key, dest)" by (cases e)
  from for_outs_ConsD [OF Cons.prems(1) [unfolded e]]
  obtain g where "for_outs node_id es (inherit ns dest g, ft[dest := g], Q @ [dest]) = Some (ns', ft', Q')"
    by blast
  from Cons.IH [OF this] show ?case using shape_inherit [of ns dest g] by (simp only:)
qed

lemma queue_loop_shape_aux:
  assumes "queue_loop ns1 ft Q = Some r"
  shows "\<forall>ns2. shape ns2 = shape ns1 \<longrightarrow>
     (\<exists>ns2'. queue_loop ns2 ft Q = Some (ns2', snd r) \<and> shape ns2' = shape (fst r)
        \<and> shape (fst r) = shape ns1)"
  apply (rule queue_loop.raw_induct
      [where P = "\<lambda>ns1 ft Q r. \<forall>ns2. shape ns2 = shape ns1 \<longrightarrow>
         (\<exists>ns2'. queue_loop ns2 ft Q = Some (ns2', snd r) \<and> shape ns2' = shape (fst r)
            \<and> shape (fst r) = shape ns1)",
        OF _ assms])
  subgoal premises p for ql ns1 ft Q r
  proof (intro allI impI)
    fix ns2 assume sh: "shape ns2 = shape ns1"
    have l: "length ns2 = length ns1" using sh by (rule shape_length)
    show "\<exists>ns2'. queue_loop ns2 ft Q = Some (ns2', snd r) \<and> shape ns2' = shape (fst r)
        \<and> shape (fst r) = shape ns1"
    proof (cases Q)
      case Nil
      then have r: "r = (ns1, ft)" using p(2) by simp
      have "queue_loop ns2 ft Q = Some (ns2, snd r)" unfolding Nil r by (simp add: queue_loop_Nil)
      moreover have "shape ns2 = shape (fst r)" unfolding r using sh by simp
      moreover have "shape (fst r) = shape ns1" unfolding r by simp
      ultimately show ?thesis by blast
    next
      case (Cons u Q1)
      then have ul: "u < length ns1" using p(2) by (simp split: if_splits)
      obtain ns1' ft' Q' where fo: "for_outs u (outs (ns1 ! u)) (ns1, ft, Q1) = Some (ns1', ft', Q')"
        and rec: "ql ns1' ft' Q' = Some r"
        using p(2) Cons ul by (auto split: option.splits)
      have o: "outs (ns2 ! u) = outs (ns1 ! u)" using shape_nth(3) [OF sh ul] .
      from for_outs_shape [OF fo sh]
      obtain ns2' where f2: "for_outs u (outs (ns1 ! u)) (ns2, ft, Q1) = Some (ns2', ft', Q')"
        "shape ns2' = shape ns1'" by blast
      have "for_outs u (outs (ns2 ! u)) (ns2, ft, Q1) = Some (ns2', ft', Q')"
        using f2(1) by (simp only: o)
      then have st: "queue_loop ns2 ft Q = queue_loop ns2' ft' Q'"
        unfolding Cons using ul l by (intro queue_loop_Cons) simp_all
      from p(1) [OF rec] f2(2)
      obtain ns2'' where r2: "queue_loop ns2' ft' Q' = Some (ns2'', snd r)" "shape ns2'' = shape (fst r)"
        "shape (fst r) = shape ns1'" by blast
      have "shape ns1' = shape ns1" using for_outs_keeps_shape [OF fo] .
      then have "shape (fst r) = shape ns1" using r2(3) by (simp only:)
      moreover have "queue_loop ns2 ft Q = Some (ns2'', snd r)" using st r2(1) by (rule trans)
      ultimately show ?thesis using r2(2) by blast
    qed
  qed
  done

lemma queue_loop_shape:
  "queue_loop ns1 ft Q = Some r \<Longrightarrow> shape ns2 = shape ns1 \<Longrightarrow>
     \<exists>ns2'. queue_loop ns2 ft Q = Some (ns2', snd r) \<and> shape ns2' = shape (fst r)
        \<and> shape (fst r) = shape ns1"
  using queue_loop_shape_aux by blast

lemma update_automaton_shape:
  assumes "update_automaton a1 = Some b1" "shape (nodes a2) = shape (nodes a1)" "nodes a1 \<noteq> []"
  shows "\<exists>b2. update_automaton a2 = Some b2 \<and> fail_table b2 = fail_table b1
     \<and> shape (nodes b2) = shape (nodes b1) \<and> shape (nodes b1) = shape (nodes a1)
     \<and> uptodate b1 \<and> uptodate b2"
proof -
  obtain r where r: "queue_loop (nodes a1) (replicate (length (nodes a1)) 0) (map snd (outs (nodes a1 ! 0))) = Some r"
    and b1: "b1 = a1\<lparr>nodes := fst r, fail_table := snd r, uptodate := True\<rparr>"
    using assms(1) by (auto simp: update_automaton_def split: option.splits)
  have l: "length (nodes a2) = length (nodes a1)" using assms(2) by (rule shape_length)
  have "0 < length (nodes a1)" using assms(3) by simp
  then have o: "outs (nodes a2 ! 0) = outs (nodes a1 ! 0)" using shape_nth(3) [OF assms(2)] by simp
  from queue_loop_shape [OF r assms(2)]
  obtain ns2' where q: "queue_loop (nodes a2) (replicate (length (nodes a1)) 0) (map snd (outs (nodes a1 ! 0))) = Some (ns2', snd r)"
    "shape ns2' = shape (fst r)" "shape (fst r) = shape (nodes a1)" by blast
  have "update_automaton a2 = Some (a2\<lparr>nodes := ns2', fail_table := snd r, uptodate := True\<rparr>)"
    using q(1) by (simp add: update_automaton_def l o)
  then show ?thesis using b1 q(2,3) by simp
qed

lemma shape_grow:
  assumes "node < length ns" "get_outnode (ns ! node) elem = None"
  shows "shape (grow ns node elem d) =
     (shape ns)[node := (depth (ns ! node), val (ns ! node), outs (ns ! node) @ [(elem, length ns)])]
       @ [(d, [], [])]"
proof (rule nth_equalityI)
  show "length (shape (grow ns node elem d)) =
    length ((shape ns)[node := (depth (ns ! node), val (ns ! node), outs (ns ! node) @ [(elem, length ns)])] @ [(d, [], [])])"
    by (simp add: shape_def)
next
  fix i assume "i < length (shape (grow ns node elem d))"
  then have i: "i \<le> length ns" by (simp add: shape_def)
  have v: "val (grow ns node elem d ! i) = (if i = length ns then [] else val (ns ! i))"
    using i by (cases "i = node") (auto simp: grow_def nth_append set_outnode_def new_Node_def)
  show "shape (grow ns node elem d) ! i =
    ((shape ns)[node := (depth (ns ! node), val (ns ! node), outs (ns ! node) @ [(elem, length ns)])] @ [(d, [], [])]) ! i"
  proof (cases "i = length ns")
    case True
    then show ?thesis
      using v depth_grow [OF i, of node elem d] outs_grow [OF assms i, of d] assms(1)
      by (simp add: shape_def nth_append)
  next
    case False
    then have il: "i < length ns" using i by simp
    then show ?thesis
      using v depth_grow [OF i, of node elem d] outs_grow [OF assms i, of d] assms(1)
      by (cases "i = node") (simp_all add: shape_def nth_append)
  qed
qed

lemma shape_settle:
  assumes "t < length ns"
  shows "shape (settle ns t v) = (shape ns)[t := (depth (ns ! t), v, outs (ns ! t))]"
proof (rule nth_equalityI)
  show "length (shape (settle ns t v)) = length ((shape ns)[t := (depth (ns ! t), v, outs (ns ! t))])"
    by (simp add: shape_def)
next
  fix i assume "i < length (shape (settle ns t v))"
  then have i: "i < length ns" by (simp add: shape_def)
  then show "shape (settle ns t v) ! i = (shape ns)[t := (depth (ns ! t), v, outs (ns ! t))] ! i"
    by (cases "i = t") (simp_all add: shape_def nth_settle add_match_def set_value_def)
qed

lemma add_loop_shape:
  assumes "shape (nodes a2) = shape (nodes a1)"
    "wf_trie (nodes a1)" "n < length (nodes a1)" "depth (nodes a1 ! n) = d - 1"
  shows "snd (add_loop a2 n d p) = snd (add_loop a1 n d p)
     \<and> shape (nodes (fst (add_loop a2 n d p))) = shape (nodes (fst (add_loop a1 n d p)))"
  using assms
proof (induction p arbitrary: a1 a2 n d)
  case Nil
  then show ?case by simp
next
  case (Cons e p)
  have l: "length (nodes a2) = length (nodes a1)" using Cons.prems(1) by (rule shape_length)
  have c: "depth (nodes a2 ! n) = depth (nodes a1 ! n)" "val (nodes a2 ! n) = val (nodes a1 ! n)"
    "outs (nodes a2 ! n) = outs (nodes a1 ! n)"
    using shape_nth [OF Cons.prems(1,3)] by simp_all
  have g: "get_outnode (nodes a2 ! n) e = get_outnode (nodes a1 ! n) e"
    using c(3) by (simp add: get_outnode_def)
  show ?case
  proof (cases "get_outnode (nodes a1 ! n) e")
    case (Some c)
    then have ed: "edge (nodes a1) n e c" using Cons.prems(3) by (simp add: edge_def)
    have cc: "c < length (nodes a1)" "depth (nodes a1 ! c) = (d + 1) - 1"
      using wf_trie_edgeD(2,3) [OF Cons.prems(2) ed] Cons.prems(4) by simp_all
    let ?a1 = "a1\<lparr>alphabet := insert e (alphabet a1)\<rparr>"
    let ?a2 = "a2\<lparr>alphabet := insert e (alphabet a2)\<rparr>"
    have "snd (add_loop ?a2 c (d + 1) p) = snd (add_loop ?a1 c (d + 1) p)
     \<and> shape (nodes (fst (add_loop ?a2 c (d + 1) p))) = shape (nodes (fst (add_loop ?a1 c (d + 1) p)))"
      using Cons.IH [of ?a2 ?a1 c "d + 1"] Cons.prems(1,2) cc by simp
    then show ?thesis using Some g by (simp add: add_loop_Cons del: add_loop.simps)
  next
    case None
    let ?ns1 = "grow (nodes a1) n e d"
    let ?ns2 = "grow (nodes a2) n e d"
    let ?a1 = "a1\<lparr>alphabet := insert e (alphabet a1), nodes := ?ns1\<rparr>"
    let ?a2 = "a2\<lparr>alphabet := insert e (alphabet a2), nodes := ?ns2\<rparr>"
    have n2: "n < length (nodes a2)" "get_outnode (nodes a2 ! n) e = None"
      using Cons.prems(3) l None g by simp_all
    have sh: "shape ?ns2 = shape ?ns1"
      unfolding shape_grow [OF Cons.prems(3) None] shape_grow [OF n2]
      by (simp only: Cons.prems(1) c l)
    have wf: "wf_trie ?ns1" using wf_trie_grow [OF Cons.prems(2,3) None Cons.prems(4)] .
    have "snd (add_loop ?a2 (length (nodes a1)) (d + 1) p) = snd (add_loop ?a1 (length (nodes a1)) (d + 1) p)
     \<and> shape (nodes (fst (add_loop ?a2 (length (nodes a1)) (d + 1) p)))
        = shape (nodes (fst (add_loop ?a1 (length (nodes a1)) (d + 1) p)))"
      using Cons.IH [of ?a2 ?a1 "length (nodes a1)" "d + 1"] sh wf by (simp add: depth_grow)
    then show ?thesis using None g l by (simp add: add_loop_Cons del: add_loop.simps)
  qed
qed

lemma add_shape:
  assumes "shape (nodes a2) = shape (nodes a1)" "wf_trie (nodes a1)"
  shows "shape (nodes (add a2 p v)) = shape (nodes (add a1 p v))"
proof -
  obtain b1 t1 where al1: "add_loop a1 0 0 p = (b1, t1)" by (cases "add_loop a1 0 0 p")
  obtain b2 t2 where al2: "add_loop a2 0 0 p = (b2, t2)" by (cases "add_loop a2 0 0 p")
  have d: "depth (nodes a1 ! 0) = 0 - 1" using assms(2) by (simp add: wf_trie_def)
  from add_loop_shape [OF assms(1,2) wf_trie_ne [OF assms(2)] d, of p] al1 al2
  have e: "t2 = t1" "shape (nodes b2) = shape (nodes b1)" by simp_all
  have t: "t1 < length (nodes b1)" using add_loop_root(3) [OF assms(2) al1] .
  then have t': "t1 < length (nodes b2)" using shape_length [OF e(2)] by simp
  have c: "depth (nodes b2 ! t1) = depth (nodes b1 ! t1)" "outs (nodes b2 ! t1) = outs (nodes b1 ! t1)"
    using shape_nth(1,3) [OF e(2) t] by simp_all
  have "shape (settle (nodes b2) t1 v) = shape (settle (nodes b1) t1 v)"
    unfolding shape_settle [OF t] shape_settle [OF t'] by (simp only: e(2) c)
  then show ?thesis unfolding add_eq [OF al1] add_eq [OF al2] e(1) by simp
qed

lemma rebuild_same_fail_table:
  assumes "reachable a"
  shows "\<exists>b c. update_automaton a = Some b \<and> update_automaton b = Some c
     \<and> fail_table c = fail_table b \<and> uptodate b \<and> uptodate c \<and> shape (nodes c) = shape (nodes b)"
proof -
  have i: "invar a" using reachable_invar [OF assms] .
  obtain b where b: "update_automaton a = Some b" "shape (nodes b) = shape (nodes a)"
    using invar_build [OF i] by blast
  have ne: "nodes a \<noteq> []" using i by (simp add: invar_def wf_trie_def)
  from update_automaton_shape [OF b(1,2) ne]
  obtain c where "update_automaton b = Some c" "fail_table c = fail_table b"
    "shape (nodes c) = shape (nodes b)" "uptodate b" "uptodate c" by blast
  then show ?thesis using b(1) by blast
qed

lemma rebuild_after_insert_same_fail_table:
  assumes "reachable a" "update_automaton a = Some b"
  shows "\<exists>d d'. update_automaton (add b p v) = Some d \<and> update_automaton (add a p v) = Some d'
     \<and> fail_table d = fail_table d' \<and> shape (nodes d) = shape (nodes d')"
proof -
  have i: "invar a" using reachable_invar [OF assms(1)] .
  have sb: "shape (nodes b) = shape (nodes a)" using invar_build [OF i] assms(2) by auto
  have wf: "wf_trie (nodes a)" using i by (simp add: invar_def)
  have sa: "shape (nodes (add b p v)) = shape (nodes (add a p v))" using add_shape [OF sb wf] .
  have ia: "invar (add a p v)" using invar_add [OF i] .
  obtain d' where d': "update_automaton (add a p v) = Some d'" using invar_build [OF ia] by blast
  have ne: "nodes (add a p v) \<noteq> []" using ia by (simp add: invar_def wf_trie_def)
  from update_automaton_shape [OF d' sa ne]
  obtain d where "update_automaton (add b p v) = Some d" "fail_table d = fail_table d'"
    "shape (nodes d) = shape (nodes d')" by blast
  then show ?thesis using d' by blast
qed

section \<open>Claims\<close>

text \<open>
  C6. \<^verbatim>\<open>has_prefix(prefix)\<close> is true exactly when no node is reached by following
  \<open>prefix\<close> from the root: the inverted meaning, not "the prefix exists".
\<close>

theorem has_prefix_inverted:
  "has_prefix a prefix \<longleftrightarrow> \<not> (\<exists>t. follows (nodes a) 0 prefix t)"
proof (cases "find_node a prefix")
  case None
  then have "\<not> (\<exists>t. follows (nodes a) 0 prefix t)"
    using follows_find_loop [of "nodes a" 0 prefix] by (auto simp: find_node_def)
  then show ?thesis using None by (simp add: has_prefix_def)
next
  case (Some t)
  then have "follows (nodes a) 0 prefix t" using find_loop_follows by (simp add: find_node_def)
  then show ?thesis using Some by (auto simp: has_prefix_def)
qed

theorem has_prefix_inverted_witness:
  "has_prefix (add Automaton_init [''h'', ''e''] ''HE'') [''h'', ''i'']
   \<and> \<not> has_prefix (add Automaton_init [''h'', ''e''] ''HE'') [''h'']
   \<and> (\<exists>t. follows (nodes (add Automaton_init [''h'', ''e''] ''HE'')) 0 [''h''] t)"
proof -
  have 1: "has_prefix (add Automaton_init [''h'', ''e''] ''HE'') [''h'', ''i'']" by code_simp
  have 2: "\<not> has_prefix (add Automaton_init [''h'', ''e''] ''HE'') [''h'']" by code_simp
  show ?thesis
    using 1 2 has_prefix_inverted [of "add Automaton_init [''h'', ''e''] ''HE''" "[''h'']"] by blast
qed

text \<open>
  C5. In every reachable automaton, right after \<^verbatim>\<open>add(p, v)\<close> with a non-empty value
  \<open>v\<close>, \<^verbatim>\<open>has_pattern(p)\<close> holds and \<^verbatim>\<open>get_value(p)\<close> is \<open>v\<close>, whatever was inserted before
  (an earlier value of \<open>p\<close> is overwritten).
\<close>

theorem insert_then_query:
  assumes "reachable a" "v \<noteq> []"
  shows "has_pattern (add a p v) p \<and> get_value (add a p v) p = v"
proof -
  have i: "wf_trie (nodes a)" using reachable_invar [OF assms(1)] by (simp add: invar_def)
  obtain a1 t where al: "add_loop a 0 0 p = (a1, t)" by (cases "add_loop a 0 0 p")
  note R = add_loop_root [OF i al]
  have eq: "add a p v = a1\<lparr>nodes := settle (nodes a1) t v, uptodate := False\<rparr>"
    using al by (rule add_eq)
  have "find_loop (settle (nodes a1) t v) 0 p = Some t"
    using skel_find_loop [OF skel_settle R(1) wf_trie_ne [OF R(1)]] R(4) by simp
  then have f: "find_node (add a p v) p = Some t" unfolding eq by (simp add: find_node_def)
  have "val (nodes (add a p v) ! t) = v" unfolding eq using R(3) by (simp add: val_settle)
  then show ?thesis using f assms(2) by (simp add: has_pattern_def get_value_def)
qed

theorem insert_then_query_witness:
  "has_pattern (add (add Automaton_init [''h'', ''e''] ''old'') [''h'', ''e''] ''new'') [''h'', ''e'']
   \<and> get_value (add (add Automaton_init [''h'', ''e''] ''old'') [''h'', ''e''] ''new'') [''h'', ''e''] = ''new''"
proof -
  have r: "reachable (add Automaton_init [''h'', ''e''] ''old'')"
    by (intro reachable.add reachable.init)
  have v: "''new'' \<noteq> []" by simp
  show ?thesis using insert_then_query [OF r v] .
qed

text \<open>
  C9. Matching is repeatable: in every reachable automaton \<^verbatim>\<open>get_matches\<close> returns, and a
  second call on the automaton it leaves behind, with the same text and the same
  \<^verbatim>\<open>exclude_overlaps\<close> flag and no insertion in between, returns the same list of matches
  (and leaves the automaton as it is).
\<close>

theorem match_twice_same:
  assumes "reachable a"
  shows "\<exists>a1 ms. get_matches ro a ts ex = Some (a1, ms) \<and> get_matches ro a1 ts ex = Some (a1, ms)"
proof -
  have i: "invar a" using reachable_invar [OF assms] .
  from get_matches_total [OF i, of ro ts ex]
  obtain a1 ms0 where r: "get_matches ro a ts ex = Some (a1, if ex then ro ms0 else ms0)"
    "scan (nodes a1) (fail_table a1) 0 0 ts [] = Some ms0" "uptodate a1"
    by blast
  have "get_matches ro a1 ts ex = Some (a1, if ex then ro ms0 else ms0)"
    using r(2,3) by (simp add: get_matches_fresh)
  then show ?thesis using r(1) by blast
qed

theorem match_twice_same_witness:
  "\<exists>a1 ms. get_matches id (add (add Automaton_init [''a'', ''b''] ''X'') [''b''] ''Y'') [''a'', ''b''] True = Some (a1, ms)
     \<and> get_matches id a1 [''a'', ''b''] True = Some (a1, ms)"
proof -
  have r: "reachable (add (add Automaton_init [''a'', ''b''] ''X'') [''b''] ''Y'')"
    by (intro reachable.add reachable.init)
  show ?thesis using match_twice_same [OF r] .
qed

text \<open>
  The failure table and the freshness flag that an automaton holds before an insertion
  have no influence on what insertion does to the trie.
\<close>

lemma stale_grow:
  "a\<lparr>fail_table := ft, uptodate := u, alphabet := A, nodes := N\<rparr>
     = a\<lparr>alphabet := A, nodes := N, fail_table := ft, uptodate := u\<rparr>"
  by (cases a) simp

lemma stale_alphabet:
  "a\<lparr>fail_table := ft, uptodate := u, alphabet := A\<rparr>
     = a\<lparr>alphabet := A, fail_table := ft, uptodate := u\<rparr>"
  by (cases a) simp

lemma add_loop_stale:
  "add_loop (a\<lparr>fail_table := ft, uptodate := u\<rparr>) n d p =
     (case add_loop a n d p of (a1, t) \<Rightarrow> (a1\<lparr>fail_table := ft, uptodate := u\<rparr>, t))"
proof (induction p arbitrary: a n d)
  case Nil
  show ?case by simp
next
  case (Cons e p)
  show ?case
  proof (cases "get_outnode (nodes a ! n) e")
    case None
    then show ?thesis
      using Cons.IH [of "a\<lparr>alphabet := insert e (alphabet a), nodes := grow (nodes a) n e d\<rparr>"
          "length (nodes a)" "d + 1"]
      by (simp add: add_loop_Cons stale_grow del: add_loop.simps)
  next
    case (Some c)
    then show ?thesis
      using Cons.IH [of "a\<lparr>alphabet := insert e (alphabet a)\<rparr>" c "d + 1"]
      by (simp add: add_loop_Cons stale_alphabet del: add_loop.simps)
  qed
qed

lemma add_stale:
  "add (a\<lparr>fail_table := ft, uptodate := u\<rparr>) p v = (add a p v)\<lparr>fail_table := ft\<rparr>"
  by (simp add: add_def add_loop_stale split: prod.splits)

lemma update_automaton_stale:
  "update_automaton (a\<lparr>fail_table := ft\<rparr>) = update_automaton a"
  by (simp add: update_automaton_def split: option.splits)

lemma uptodate_add: "\<not> uptodate (add a p v)"
  by (simp add: add_def split: prod.splits)

text \<open>
  Every insertion clears the freshness flag, and a \<^verbatim>\<open>get_matches\<close> call after an
  insertion first runs \<^verbatim>\<open>update_automaton\<close> and then scans what it leaves. The matches
  returned do not depend on the failure table or the flag held before the insertion.
  More generally \<^verbatim>\<open>get_matches\<close> on any reachable automaton whose flag is clear runs
  \<^verbatim>\<open>update_automaton\<close> before it scans.
\<close>

lemma insert_clears_flag_and_rebuilds:
  assumes "reachable a"
  shows "\<not> uptodate (add a p v)
     \<and> (\<exists>b ms0. update_automaton (add a p v) = Some b
           \<and> scan (nodes b) (fail_table b) 0 0 ts [] = Some ms0
           \<and> get_matches ro (add a p v) ts ex = Some (b, if ex then ro ms0 else ms0)
           \<and> uptodate b)
     \<and> get_matches ro (add (a\<lparr>fail_table := ft, uptodate := u\<rparr>) p v) ts ex
         = get_matches ro (add a p v) ts ex
     \<and> (\<not> uptodate a \<longrightarrow>
          (\<exists>b ms0. update_automaton a = Some b
             \<and> scan (nodes b) (fail_table b) 0 0 ts [] = Some ms0
             \<and> get_matches ro a ts ex = Some (b, if ex then ro ms0 else ms0)
             \<and> uptodate b))"
proof -
  have st: "\<not> uptodate (add a p v)" by (rule uptodate_add)
  have i: "invar (add a p v)" using reachable_invar [OF reachable.add [OF assms]] .
  from get_matches_total [OF i, of ro ts ex] st
  obtain b ms0 where r: "get_matches ro (add a p v) ts ex = Some (b, if ex then ro ms0 else ms0)"
    "scan (nodes b) (fail_table b) 0 0 ts [] = Some ms0" "update_automaton (add a p v) = Some b"
    "uptodate b"
    by auto
  have ind: "get_matches ro (add (a\<lparr>fail_table := ft, uptodate := u\<rparr>) p v) ts ex
         = get_matches ro (add a p v) ts ex"
    using st by (simp add: add_stale get_matches_def update_automaton_stale)
  have gen: "\<not> uptodate a \<longrightarrow>
          (\<exists>b ms0. update_automaton a = Some b
             \<and> scan (nodes b) (fail_table b) 0 0 ts [] = Some ms0
             \<and> get_matches ro a ts ex = Some (b, if ex then ro ms0 else ms0)
             \<and> uptodate b)"
  proof
    assume s: "\<not> uptodate a"
    from get_matches_total [OF reachable_invar [OF assms], of ro ts ex] s
    obtain b ms0 where "get_matches ro a ts ex = Some (b, if ex then ro ms0 else ms0)"
      "scan (nodes b) (fail_table b) 0 0 ts [] = Some ms0" "update_automaton a = Some b"
      "uptodate b"
      by auto
    then show "\<exists>b ms0. update_automaton a = Some b
             \<and> scan (nodes b) (fail_table b) 0 0 ts [] = Some ms0
             \<and> get_matches ro a ts ex = Some (b, if ex then ro ms0 else ms0)
             \<and> uptodate b"
      by blast
  qed
  show ?thesis using st r ind gen by blast
qed

text \<open>
  C4. After an insertion \<^verbatim>\<open>get_matches\<close> should return no result computed from a failure
  table or outputs older than the insertion. The failure table is rebuilt, but the
  outputs of the earlier build stay in the nodes and the rebuild appends to them. The
  automaton with the patterns "ab", "b", "c" reports \<open>(0, 2, X), (1, 2, Y)\<close> in the text
  "ab" when it was never matched before "c" was inserted, and reports \<open>(1, 2, Y)\<close> twice
  when it was matched (on the empty text) before: the two automata have the same trie
  and both are stale. With the empty pattern (value E), "ab", a match, then "b", the text
  "ab" yields the match \<open>(2, 2, E)\<close>, which comes from the failure target that the node of
  "ab" had before "b" was inserted.
\<close>

theorem stale_outputs_reported:
  "map_option snd
     (get_matches id (add (add (add Automaton_init [''a'', ''b''] ''X'') [''b''] ''Y'') [''c''] ''Z'')
        [''a'', ''b''] False)
   = Some [(0, 2, ''X''), (1, 2, ''Y'')]
   \<and> map_option snd
     (Option.bind (get_matches id (add (add Automaton_init [''a'', ''b''] ''X'') [''b''] ''Y'') [] False)
        (\<lambda>(b, ms). get_matches id (add b [''c''] ''Z'') [''a'', ''b''] False))
   = Some [(0, 2, ''X''), (1, 2, ''Y''), (1, 2, ''Y'')]
   \<and> map_option
        (\<lambda>(b, ms). (shape (nodes (add b [''c''] ''Z''))
              = shape (nodes (add (add (add Automaton_init [''a'', ''b''] ''X'') [''b''] ''Y'') [''c''] ''Z'')),
            uptodate (add b [''c''] ''Z'')))
        (get_matches id (add (add Automaton_init [''a'', ''b''] ''X'') [''b''] ''Y'') [] False)
   = Some (True, False)
   \<and> map_option snd
     (get_matches id (add (add (add Automaton_init [] ''E'') [''a'', ''b''] ''X'') [''b''] ''Y'')
        [''a'', ''b''] False)
   = Some [(0, 2, ''X''), (1, 2, ''Y'')]
   \<and> map_option snd
     (Option.bind (get_matches id (add (add Automaton_init [] ''E'') [''a'', ''b''] ''X'') [] False)
        (\<lambda>(b, ms). get_matches id (add b [''b''] ''Y'') [''a'', ''b''] False))
   = Some [(0, 2, ''X''), (2, 2, ''E''), (1, 2, ''Y'')]"
  by code_simp

text \<open>
  C8. The failure walks terminate. In every reachable automaton the goto function at the
  root is defined for every token; \<^verbatim>\<open>update_automaton\<close> returns, so each walk of its
  construction loop stops; in the automaton it builds (and in any reachable automaton
  whose flag is set) the walk from every node and for every token stops at a node that
  has a transition; and \<^verbatim>\<open>get_matches\<close> returns for every text.
\<close>

theorem failure_walks_terminate:
  assumes "reachable a"
  shows "(\<exists>b. update_automaton a = Some b
            \<and> (\<forall>x < length (nodes b). \<exists>f. follow_fail (nodes b) (fail_table b) x elem = Some f
                   \<and> goto_node (nodes b) f elem \<noteq> None))
     \<and> (uptodate a \<longrightarrow> (\<forall>x < length (nodes a). \<exists>f. follow_fail (nodes a) (fail_table a) x elem = Some f
                   \<and> goto_node (nodes a) f elem \<noteq> None))
     \<and> (\<exists>r. get_matches ro a ts ex = Some r)
     \<and> goto_node (nodes a) 0 elem \<noteq> None"
proof -
  have i: "invar a" using reachable_invar [OF assms] .
  obtain b where b: "update_automaton a = Some b" "invar b" "uptodate b"
    using invar_build [OF i] by blast
  have wb: "wf_trie (nodes b)" "wf_fail (nodes b) (fail_table b)"
    using b(2,3) by (simp_all add: invar_def)
  have 1: "\<forall>x < length (nodes b). \<exists>f. follow_fail (nodes b) (fail_table b) x elem = Some f
                   \<and> goto_node (nodes b) f elem \<noteq> None"
    using follow_fail_total [OF wb] by blast
  have 2: "uptodate a \<longrightarrow> (\<forall>x < length (nodes a). \<exists>f. follow_fail (nodes a) (fail_table a) x elem = Some f
                   \<and> goto_node (nodes a) f elem \<noteq> None)"
  proof
    assume "uptodate a"
    then have wa: "wf_trie (nodes a)" "wf_fail (nodes a) (fail_table a)"
      using i by (simp_all add: invar_def)
    show "\<forall>x < length (nodes a). \<exists>f. follow_fail (nodes a) (fail_table a) x elem = Some f
                   \<and> goto_node (nodes a) f elem \<noteq> None"
      using follow_fail_total [OF wa] by blast
  qed
  have 3: "\<exists>r. get_matches ro a ts ex = Some r"
    using get_matches_total [OF i, of ro ts ex] by blast
  have 4: "goto_node (nodes a) 0 elem \<noteq> None" using goto_node_root [of "nodes a" elem] by auto
  show ?thesis using b(1) 1 2 3 4 by blast
qed

theorem failure_walks_terminate_witness:
  "(\<exists>b. update_automaton (add Automaton_init [''a'', ''b''] ''X'') = Some b
        \<and> (\<forall>x < length (nodes b). \<exists>f. follow_fail (nodes b) (fail_table b) x ''z'' = Some f
               \<and> goto_node (nodes b) f ''z'' \<noteq> None))
   \<and> (\<exists>f. follow_fail (nodes (add Automaton_init [''a'', ''b''] ''X'')) [0, 0, 0] 2 ''z'' = Some f
        \<and> goto_node (nodes (add Automaton_init [''a'', ''b''] ''X'')) f ''z'' \<noteq> None)
   \<and> (\<exists>r. get_matches id (add Automaton_init [''a'', ''b''] ''X'') [''a'', ''z'', ''b''] False = Some r)
   \<and> goto_node (nodes (add Automaton_init [''a'', ''b''] ''X'')) 0 ''z'' \<noteq> None"
proof -
  let ?a = "add Automaton_init [''a'', ''b''] ''X''"
  let ?b = "?a\<lparr>nodes := nodes ?a, fail_table := [0, 0, 0], uptodate := True\<rparr>"
  have ra: "reachable ?a" by (intro reachable.add reachable.init)
  have e: "update_automaton ?a = Some ?b" by code_simp
  have rb: "reachable ?b" by (rule reachable.build [OF ra e])
  have u: "uptodate ?b" by simp
  have l: "2 < length (nodes ?b)" by code_simp
  have n: "nodes ?b = nodes ?a" "fail_table ?b = [0, 0, 0]" by simp_all
  from failure_walks_terminate [OF rb, of "''z''" id "[]" False] u l
  have "\<exists>f. follow_fail (nodes ?b) (fail_table ?b) 2 ''z'' = Some f
        \<and> goto_node (nodes ?b) f ''z'' \<noteq> None"
    by blast
  then have "\<exists>f. follow_fail (nodes ?a) [0, 0, 0] 2 ''z'' = Some f
        \<and> goto_node (nodes ?a) f ''z'' \<noteq> None"
    by (simp only: n)
  then show ?thesis
    using failure_walks_terminate [OF ra, of "''z''" id "[''a'', ''z'', ''b'']" False] by blast
qed

text \<open>
  The scanning loop appends one group of matches per position of the text, in order: the
  group of position \<open>k\<close> holds one match per output of the node reached there, if that
  node has a value, and is empty otherwise.
\<close>

lemma scan_groups:
  assumes wf: "wf_trie ns" and ft: "wf_fail ns ft"
  shows "node_id < length ns \<Longrightarrow>
     \<exists>groups. scan ns ft node_id idx ts ms = Some (ms @ concat groups) \<and> length groups = length ts
       \<and> (\<forall>k < length ts. \<exists>x. run ns ft node_id (take (Suc k) ts) = Some x \<and> x < length ns
             \<and> groups ! k =
                 (if val (ns ! x) \<noteq> []
                  then map (\<lambda>r. (idx + int k - depth (ns ! r), idx + int k + 1, val (ns ! r)))
                         (matches (ns ! x))
                  else []))"
proof (induction ts arbitrary: node_id idx ms)
  case Nil
  have "scan ns ft node_id idx [] ms = Some (ms @ concat [])" by simp
  then show ?case by fastforce
next
  case (Cons e ts)
  obtain f where f: "follow_fail ns ft node_id e = Some f" "f < length ns" "goto_node ns f e \<noteq> None"
    using follow_fail_total [OF wf ft Cons.prems(1), of e] by blast
  obtain g where g: "goto_node ns f e = Some g" using f(3) by blast
  have gl: "g < length ns"
    using goto_node_cases [OF wf f(2) g] wf_trie_edgeD(2) [OF wf] wf_trie_ne [OF wf] by auto
  let ?g0 = "if val (ns ! g) \<noteq> []
             then map (\<lambda>r. (idx - depth (ns ! r), idx + 1, val (ns ! r))) (matches (ns ! g))
             else []"
  have s: "scan ns ft node_id idx (e # ts) ms = scan ns ft g (idx + 1) ts (ms @ ?g0)"
    using f(1) g by simp
  from Cons.IH [OF gl, of "idx + 1" "ms @ ?g0"]
  obtain groups where G: "scan ns ft g (idx + 1) ts (ms @ ?g0) = Some ((ms @ ?g0) @ concat groups)"
    "length groups = length ts"
    "\<forall>k < length ts. \<exists>x. run ns ft g (take (Suc k) ts) = Some x \<and> x < length ns
             \<and> groups ! k =
                 (if val (ns ! x) \<noteq> []
                  then map (\<lambda>r. (idx + 1 + int k - depth (ns ! r), idx + 1 + int k + 1, val (ns ! r)))
                         (matches (ns ! x))
                  else [])"
    by blast
  have r0: "run ns ft node_id [e] = Some g" using f(1) g by simp
  have rs: "\<And>p. run ns ft node_id (e # p) = run ns ft g p" using f(1) g by simp
  have 1: "scan ns ft node_id idx (e # ts) ms = Some (ms @ concat (?g0 # groups))"
    using s G(1) by simp
  have 2: "length (?g0 # groups) = length (e # ts)" using G(2) by simp
  have 3: "\<forall>k < length (e # ts). \<exists>x. run ns ft node_id (take (Suc k) (e # ts)) = Some x \<and> x < length ns
             \<and> (?g0 # groups) ! k =
                 (if val (ns ! x) \<noteq> []
                  then map (\<lambda>r. (idx + int k - depth (ns ! r), idx + int k + 1, val (ns ! r)))
                         (matches (ns ! x))
                  else [])"
  proof (intro allI impI)
    fix k assume k: "k < length (e # ts)"
    show "\<exists>x. run ns ft node_id (take (Suc k) (e # ts)) = Some x \<and> x < length ns
             \<and> (?g0 # groups) ! k =
                 (if val (ns ! x) \<noteq> []
                  then map (\<lambda>r. (idx + int k - depth (ns ! r), idx + int k + 1, val (ns ! r)))
                         (matches (ns ! x))
                  else [])"
    proof (cases k)
      case 0
      have "run ns ft node_id (take (Suc 0) (e # ts)) = Some g" using r0 by simp
      then show ?thesis using 0 gl by simp
    next
      case (Suc j)
      then have j: "j < length ts" using k by simp
      from G(3) j obtain x where x: "run ns ft g (take (Suc j) ts) = Some x" "x < length ns"
        "groups ! j =
                 (if val (ns ! x) \<noteq> []
                  then map (\<lambda>r. (idx + 1 + int j - depth (ns ! r), idx + 1 + int j + 1, val (ns ! r)))
                         (matches (ns ! x))
                  else [])"
        by blast
      have a: "run ns ft node_id (take (Suc k) (e # ts)) = Some x" using x(1) Suc rs by simp
      have b: "idx + 1 + int j = idx + int k" using Suc by simp
      have "(?g0 # groups) ! k =
                 (if val (ns ! x) \<noteq> []
                  then map (\<lambda>r. (idx + int k - depth (ns ! r), idx + int k + 1, val (ns ! r)))
                         (matches (ns ! x))
                  else [])"
        using x(3) Suc by (simp only: b nth_Cons_Suc)
      then show ?thesis using a x(2) by blast
    qed
  qed
  show ?case using 1 2 3 by blast
qed

text \<open>
  C7. The matches returned by \<^verbatim>\<open>get_matches\<close> on a reachable automaton are, position by
  position of the text and in this order, the matches emitted at that position: at
  position \<open>k\<close>, in the node reached after the tokens \<open>0..k\<close>, one match per output
  node (none if the reached node has no value), and the match for an output node reached
  by a pattern \<open>q\<close> from the root is \<open>(k - length q + 1, k + 1, value)\<close>: the end is exclusive
  and \<open>start = end - length q\<close>. With \<^verbatim>\<open>exclude_overlaps\<close> set the result is
  \<^verbatim>\<open>remove_overlaps\<close> of that list, and holds only such matches provided
  \<^verbatim>\<open>remove_overlaps\<close> returns only matches that it was given.
\<close>

theorem match_offsets:
  assumes "reachable a" "ex \<longrightarrow> (\<forall>xs. set (ro xs) \<subseteq> set xs)"
  shows "\<exists>a' ms groups. get_matches ro a ts ex = Some (a', ms)
     \<and> ms = (if ex then ro (concat groups) else concat groups)
     \<and> set ms \<subseteq> set (concat groups)
     \<and> length groups = length ts
     \<and> (\<forall>k < length ts. \<exists>x. run (nodes a') (fail_table a') 0 (take (Suc k) ts) = Some x
           \<and> list_all2
                (\<lambda>m r. \<exists>q. find_node a' q = Some r
                    \<and> m = (int k - int (length q) + 1, int k + 1, val (nodes a' ! r)))
                (groups ! k)
                (if val (nodes a' ! x) \<noteq> [] then matches (nodes a' ! x) else []))"
proof -
  have i: "invar a" using reachable_invar [OF assms(1)] .
  from get_matches_total [OF i, of ro ts ex]
  obtain a' ms0 where r: "get_matches ro a ts ex = Some (a', if ex then ro ms0 else ms0)"
    "scan (nodes a') (fail_table a') 0 0 ts [] = Some ms0" "invar a'" "uptodate a'"
    by blast
  let ?ns = "nodes a'"
  have w: "wf_trie ?ns" "wf_fail ?ns (fail_table a')" "wf_matches ?ns" "all_reach ?ns"
    using r(3,4) by (simp_all add: invar_def)
  have d0: "depth (?ns ! 0) = - 1" using w(1) by (simp add: wf_trie_def)
  from scan_groups [OF w(1,2) wf_trie_ne [OF w(1)], of 0 ts "[]"]
  obtain groups where G: "scan ?ns (fail_table a') 0 0 ts [] = Some ([] @ concat groups)"
    "length groups = length ts"
    "\<forall>k < length ts. \<exists>x. run ?ns (fail_table a') 0 (take (Suc k) ts) = Some x \<and> x < length ?ns
             \<and> groups ! k =
                 (if val (?ns ! x) \<noteq> []
                  then map (\<lambda>r. (0 + int k - depth (?ns ! r), 0 + int k + 1, val (?ns ! r)))
                         (matches (?ns ! x))
                  else [])"
    by blast
  have ms0: "ms0 = concat groups" using r(2) G(1) by simp
  let ?ms = "if ex then ro (concat groups) else concat groups"
  have 1: "get_matches ro a ts ex = Some (a', ?ms)" using r(1) ms0 by simp
  have 2: "set ?ms \<subseteq> set (concat groups)"
  proof (cases ex)
    case True
    then have "set (ro (concat groups)) \<subseteq> set (concat groups)" using assms(2) by blast
    then show ?thesis using True by simp
  next
    case False
    then show ?thesis by simp
  qed
  have 3: "\<forall>k < length ts. \<exists>x. run ?ns (fail_table a') 0 (take (Suc k) ts) = Some x
           \<and> list_all2
                (\<lambda>m r. \<exists>q. find_node a' q = Some r
                    \<and> m = (int k - int (length q) + 1, int k + 1, val (?ns ! r)))
                (groups ! k)
                (if val (?ns ! x) \<noteq> [] then matches (?ns ! x) else [])"
  proof (intro allI impI)
    fix k assume "k < length ts"
    with G(3) obtain x where x: "run ?ns (fail_table a') 0 (take (Suc k) ts) = Some x" "x < length ?ns"
      "groups ! k =
                 (if val (?ns ! x) \<noteq> []
                  then map (\<lambda>r. (0 + int k - depth (?ns ! r), 0 + int k + 1, val (?ns ! r)))
                         (matches (?ns ! x))
                  else [])"
      by blast
    have each: "\<exists>q. find_node a' q = Some n
        \<and> (0 + int k - depth (?ns ! n), 0 + int k + 1, val (?ns ! n))
            = (int k - int (length q) + 1, int k + 1, val (?ns ! n))"
      if n: "n \<in> set (matches (?ns ! x))" for n
    proof -
      have nl: "n < length ?ns" using w(3) x(2) n unfolding wf_matches_def by blast
      then obtain q where q: "find_loop ?ns 0 q = Some n"
        using w(4) unfolding all_reach_def by blast
      have "depth (?ns ! n) = depth (?ns ! 0) + int (length q)"
        using find_loop_depth [OF w(1) wf_trie_ne [OF w(1)] q] by simp
      then have "depth (?ns ! n) = int (length q) - 1" using d0 by simp
      then have "find_node a' q = Some n
        \<and> (0 + int k - depth (?ns ! n), 0 + int k + 1, val (?ns ! n))
            = (int k - int (length q) + 1, int k + 1, val (?ns ! n))"
        using q by (simp add: find_node_def)
      then show ?thesis by blast
    qed
    have "list_all2
                (\<lambda>m r. \<exists>q. find_node a' q = Some r
                    \<and> m = (int k - int (length q) + 1, int k + 1, val (?ns ! r)))
                (groups ! k)
                (if val (?ns ! x) \<noteq> [] then matches (?ns ! x) else [])"
    proof (cases "val (?ns ! x) \<noteq> []")
      case True
      have "list_all2
                (\<lambda>m r. \<exists>q. find_node a' q = Some r
                    \<and> m = (int k - int (length q) + 1, int k + 1, val (?ns ! r)))
                (map (\<lambda>r. (0 + int k - depth (?ns ! r), 0 + int k + 1, val (?ns ! r))) (matches (?ns ! x)))
                (matches (?ns ! x))"
        unfolding list_all2_map1 list_all2_same using each by blast
      then show ?thesis using True x(3) by simp
    next
      case False
      then show ?thesis using x(3) by simp
    qed
    then show "\<exists>x. run ?ns (fail_table a') 0 (take (Suc k) ts) = Some x
           \<and> list_all2
                (\<lambda>m r. \<exists>q. find_node a' q = Some r
                    \<and> m = (int k - int (length q) + 1, int k + 1, val (?ns ! r)))
                (groups ! k)
                (if val (?ns ! x) \<noteq> [] then matches (?ns ! x) else [])"
      using x(1) by blast
  qed
  show ?thesis using 1 2 G(2) 3 by blast
qed

theorem match_offsets_witness:
  "map_option snd (get_matches id (add (add Automaton_init [''a'', ''b''] ''X'') [''b''] ''Y'')
       [''x'', ''a'', ''b''] True) = Some [(1, 3, ''X''), (2, 3, ''Y'')]
   \<and> (\<exists>a' ms groups.
        get_matches id (add (add Automaton_init [''a'', ''b''] ''X'') [''b''] ''Y'') [''x'', ''a'', ''b''] True
          = Some (a', ms)
     \<and> ms = (if True then id (concat groups) else concat groups)
     \<and> set ms \<subseteq> set (concat groups)
     \<and> length groups = length [''x'', ''a'', ''b'']
     \<and> (\<forall>k < length [''x'', ''a'', ''b'']. \<exists>x. run (nodes a') (fail_table a') 0 (take (Suc k) [''x'', ''a'', ''b'']) = Some x
           \<and> list_all2
                (\<lambda>m r. \<exists>q. find_node a' q = Some r
                    \<and> m = (int k - int (length q) + 1, int k + 1, val (nodes a' ! r)))
                (groups ! k)
                (if val (nodes a' ! x) \<noteq> [] then matches (nodes a' ! x) else [])))"
proof -
  let ?a = "add (add Automaton_init [''a'', ''b''] ''X'') [''b''] ''Y''"
  have r: "reachable ?a" by (intro reachable.add reachable.init)
  have h: "True \<longrightarrow> (\<forall>xs::Match list. set (id xs) \<subseteq> set xs)" by simp
  have v: "map_option snd (get_matches id ?a [''x'', ''a'', ''b''] True) = Some [(1, 3, ''X''), (2, 3, ''Y'')]"
    by code_simp
  show ?thesis using v match_offsets [OF r h, of "[''x'', ''a'', ''b'']"] by blast
qed

lemma has_pattern_get_value: "has_pattern a q \<longleftrightarrow> get_value a q \<noteq> []"
  by (simp add: has_pattern_def get_value_def split: option.splits)

lemma add_frame:
  assumes wf: "wf_trie (nodes a)" and qp: "q \<noteq> p"
  shows "get_value (add a p v) q = get_value a q"
    "\<And>t. find_node a q = Some t \<Longrightarrow> find_node (add a p v) q = Some t"
    "find_node a q = None \<Longrightarrow> find_node (add a p v) q \<noteq> None \<Longrightarrow> \<exists>r. r \<noteq> [] \<and> p = q @ r"
proof -
  obtain a1 t where al: "add_loop a 0 0 p = (a1, t)" by (cases "add_loop a 0 0 p")
  note R = add_loop_root [OF wf al]
  let ?ns = "nodes a" and ?ns1 = "nodes a1"
  let ?ns2 = "settle (nodes a1) t v"
  have eq: "add a p v = a1\<lparr>nodes := ?ns2, uptodate := False\<rparr>"
    using al by (rule add_eq)
  have n0: "0 < length ?ns" "0 < length ?ns1" using wf_trie_ne [OF wf] wf_trie_ne [OF R(1)] by simp_all
  have ll: "length ?ns \<le> length ?ns1" using R(2) by (simp add: trie_ext_def)
  have f2: "\<And>x. find_loop ?ns2 0 x = find_loop ?ns1 0 x"
    using skel_find_loop [OF skel_settle R(1) n0(2)] .
  have fn: "\<And>x. find_node (add a p v) x = find_loop ?ns1 0 x"
    unfolding eq by (simp add: find_node_def f2)
  have F1: "\<And>tq. find_loop ?ns 0 q = Some tq \<Longrightarrow> find_loop ?ns1 0 q = Some tq \<and> tq < length ?ns"
    using find_loop_ext [OF R(2) wf n0(1)] find_loop_depth [OF wf n0(1)] by blast
  have F2: "\<And>tq. find_loop ?ns1 0 q = Some tq \<Longrightarrow> tq < length ?ns \<Longrightarrow> find_loop ?ns 0 q = Some tq"
    using find_loop_ext_back [OF R(2,1) _ n0(1)] by blast
  have F3: "\<exists>r. r \<noteq> [] \<and> p = q @ r" if a: "find_loop ?ns1 0 q = Some tq" and b: "length ?ns \<le> tq" for tq
  proof -
    have "tq < length ?ns1" using find_loop_depth [OF R(1) n0(2) a] by simp
    from R(5) [OF b this] obtain n where n: "n \<le> length p" "find_loop ?ns1 0 (take n p) = Some tq"
      by blast
    have q: "q = take n p" using find_loop_unique [OF R(1) n0(2) a n(2)] .
    then have "n \<noteq> length p" using qp by auto
    then have "drop n p \<noteq> []" using n(1) by simp
    moreover have "p = q @ drop n p" using q by simp
    ultimately show ?thesis by blast
  qed
  have F4: "\<And>tq. find_loop ?ns1 0 q = Some tq \<Longrightarrow> tq \<noteq> t"
    using find_loop_unique [OF R(1) n0(2) _ R(4)] qp by blast
  show "\<And>tq. find_node a q = Some tq \<Longrightarrow> find_node (add a p v) q = Some tq"
    using F1 by (simp add: fn) (simp add: find_node_def)
  show "find_node a q = None \<Longrightarrow> find_node (add a p v) q \<noteq> None \<Longrightarrow> \<exists>r. r \<noteq> [] \<and> p = q @ r"
  proof -
    assume n: "find_node a q = None" and s: "find_node (add a p v) q \<noteq> None"
    then obtain tq where tq: "find_loop ?ns1 0 q = Some tq" using fn by auto
    have "\<not> tq < length ?ns" using F2 [OF tq] n by (auto simp: find_node_def)
    then show ?thesis using F3 [OF tq] by simp
  qed
  show "get_value (add a p v) q = get_value a q"
  proof (cases "find_loop ?ns1 0 q")
    case None
    then have "find_loop ?ns 0 q = None" using F1 by (cases "find_loop ?ns 0 q") auto
    then show ?thesis using None by (simp add: get_value_def fn) (simp add: find_node_def)
  next
    case (Some tq)
    have tl: "tq < length ?ns1" using find_loop_depth [OF R(1) n0(2) Some] by simp
    have v2: "val (nodes (add a p v) ! tq) = val (?ns1 ! tq)"
      unfolding eq using tl F4 [OF Some] by (simp add: val_settle)
    have g2: "get_value (add a p v) q = val (?ns1 ! tq)"
      using Some v2 by (simp add: get_value_def fn)
    show ?thesis
    proof (cases "tq < length ?ns")
      case True
      have "find_node a q = Some tq" using F2 [OF Some True] by (simp add: find_node_def)
      moreover have "val (?ns1 ! tq) = val (?ns ! tq)" using R(2) True by (simp add: trie_ext_def)
      ultimately show ?thesis using g2 by (simp add: get_value_def)
    next
      case False
      have "find_loop ?ns 0 q = None"
      proof (cases "find_loop ?ns 0 q")
        case None
        then show ?thesis .
      next
        case (Some x)
        then show ?thesis using F1 [OF Some] \<open>find_loop ?ns1 0 q = Some tq\<close> False by simp
      qed
      moreover have "val (?ns1 ! tq) = []" using R(2) False tl by (simp add: trie_ext_def)
      ultimately show ?thesis using g2 by (simp add: get_value_def find_node_def)
    qed
  qed
qed

text \<open>
  C10, amended. In a reachable automaton, inserting \<open>p\<close> leaves \<^verbatim>\<open>get_value(q)\<close> and
  \<^verbatim>\<open>has_pattern(q)\<close> unchanged for every \<open>q\<close> other than \<open>p\<close>; a node that
  \<^verbatim>\<open>find_node(q)\<close> found before is found after; and \<^verbatim>\<open>find_node(q)\<close> turns from absent to
  present only for a proper prefix \<open>q\<close> of \<open>p\<close>, whose node the insertion creates.
\<close>

theorem insert_frame:
  assumes "reachable a" "q \<noteq> p"
  shows "get_value (add a p v) q = get_value a q
     \<and> has_pattern (add a p v) q = has_pattern a q
     \<and> (\<forall>t. find_node a q = Some t \<longrightarrow> find_node (add a p v) q = Some t)
     \<and> (find_node a q = None \<and> find_node (add a p v) q \<noteq> None \<longrightarrow> (\<exists>r. r \<noteq> [] \<and> p = q @ r))"
proof -
  have wf: "wf_trie (nodes a)" using reachable_invar [OF assms(1)] by (simp add: invar_def)
  note F = add_frame [OF wf assms(2), where v = v]
  have "has_pattern (add a p v) q = has_pattern a q"
    using F(1) by (simp add: has_pattern_get_value)
  then show ?thesis using F by blast
qed

theorem insert_frame_witness:
  "get_value (add (add Automaton_init [''h'', ''e''] ''HE'') [''h'', ''i'', ''s''] ''HIS'') [''h'', ''e''] = ''HE''
   \<and> has_pattern (add (add Automaton_init [''h'', ''e''] ''HE'') [''h'', ''i'', ''s''] ''HIS'') [''h'', ''e'']
   \<and> find_node (add (add Automaton_init [''h'', ''e''] ''HE'') [''h'', ''i'', ''s''] ''HIS'') [''h'', ''e''] = Some 2
   \<and> (\<exists>r. r \<noteq> [] \<and> [''h'', ''i'', ''s''] = [''h'', ''i''] @ r)"
proof -
  let ?a = "add Automaton_init [''h'', ''e''] ''HE''"
  have r: "reachable ?a" by (intro reachable.add reachable.init)
  have n1: "[''h'', ''e''] \<noteq> [''h'', ''i'', ''s'']" by simp
  have n2: "[''h'', ''i''] \<noteq> [''h'', ''i'', ''s'']" by simp
  have g: "get_value ?a [''h'', ''e''] = ''HE''" by code_simp
  have h: "has_pattern ?a [''h'', ''e'']" by code_simp
  have f: "find_node ?a [''h'', ''e''] = Some 2" by code_simp
  have b: "find_node ?a [''h'', ''i''] = None" by code_simp
  have c: "find_node (add ?a [''h'', ''i'', ''s''] ''HIS'') [''h'', ''i''] \<noteq> None" by code_simp
  show ?thesis
    using insert_frame [OF r n1, of "''HIS''"] insert_frame [OF r n2, of "''HIS''"] g h f b c by simp
qed

text \<open>
  The existence of \<^verbatim>\<open>find_node(q)\<close> is not unchanged for every \<open>q\<close> other than \<open>p\<close>:
  inserting "he" into the empty automaton creates the node of "h".
\<close>

theorem insert_frame_counterexample:
  "[''h''] \<noteq> [''h'', ''e'']
   \<and> find_node Automaton_init [''h''] = None
   \<and> find_node (add Automaton_init [''h'', ''e''] ''HE'') [''h''] = Some 1"
  by code_simp

text \<open>
  C1. \<^verbatim>\<open>get_matches(text, false)\<close> should report every occurrence of every inserted
  pattern. With the patterns "abc" (value X) and "b" (value Y) and the text "ab", the
  pattern "b" occupies the positions \<open>[1, 2)\<close>, and the scan ends position 1 in the node of
  "ab" (id 2), whose outputs hold the node of "b" (id 4). That node has no value of its
  own, the test \<^verbatim>\<open>node->value != ""\<close> skips its outputs, and no match is returned.
\<close>

theorem missed_occurrence:
  "map_option (\<lambda>(a', ms). (ms, find_node a' [''a'', ''b''], find_node a' [''b''],
        map matches (nodes a'), map val (nodes a')))
     (get_matches id (add (add Automaton_init [''a'', ''b'', ''c''] ''X'') [''b''] ''Y'') [''a'', ''b''] False)
   = Some ([], Some 2, Some 4, [[], [], [4], [3], [4]], [[], [], [], ''X'', ''Y''])"
  by code_simp

text \<open>
  C2. \<^verbatim>\<open>update_automaton\<close> should be idempotent on the failure table and on the outputs
  of every node. The failure table is computed afresh and the flag is set, but the
  outputs are appended to what an earlier run left: with the patterns "ab" and "b", one
  run gives the node of "ab" the outputs \<open>[2, 3]\<close> and a second run in a row \<open>[2, 3, 3]\<close>.
  After a further insertion the outputs can differ from those of one run on the final
  trie even as sets: with the empty pattern, "ab", a run, then "b" and a run, the node of
  "ab" keeps the root among its outputs, \<open>[2, 0, 3]\<close>, where one run on the final trie
  gives \<open>[2, 3]\<close>.
\<close>

theorem rebuild_duplicates_outputs:
  "map_option (\<lambda>b. (map matches (nodes b), fail_table b, uptodate b))
     (update_automaton (add (add Automaton_init [''a'', ''b''] ''X'') [''b''] ''Y''))
   = Some ([[], [], [2, 3], [3]], [0, 0, 3, 0], True)
   \<and> map_option (\<lambda>b. (map matches (nodes b), fail_table b, uptodate b))
     (Option.bind (update_automaton (add (add Automaton_init [''a'', ''b''] ''X'') [''b''] ''Y''))
        update_automaton)
   = Some ([[], [], [2, 3, 3], [3]], [0, 0, 3, 0], True)
   \<and> map_option (\<lambda>b. map matches (nodes b))
     (Option.bind (update_automaton (add (add Automaton_init [] ''E'') [''a'', ''b''] ''X''))
        (\<lambda>b. update_automaton (add b [''b''] ''Y'')))
   = Some [[0], [], [2, 0, 3], [3]]
   \<and> map_option (\<lambda>b. map matches (nodes b))
     (update_automaton (add (add (add Automaton_init [] ''E'') [''a'', ''b''] ''X'') [''b''] ''Y''))
   = Some [[0], [], [2, 3], [3]]"
  by code_simp

text \<open>
  C3. The outputs of a node should hold each node at most once after any sequence of
  insertions and builds. Insert "ab" and "b", match (which builds), insert "c", match
  again (which rebuilds): the outputs of the node of "ab" are \<open>[2, 3, 3]\<close>, and the match
  of "b" is reported twice.
\<close>

theorem outputs_not_a_set:
  "map_option (\<lambda>(a', ms). (ms, matches (nodes a' ! 2), distinct (matches (nodes a' ! 2))))
     (Option.bind
        (get_matches id (add (add Automaton_init [''a'', ''b''] ''X'') [''b''] ''Y'') [''a'', ''b''] False)
        (\<lambda>(a', ms). get_matches id (add a' [''c''] ''Z'') [''a'', ''b''] False))
   = Some ([(0, 2, ''X''), (1, 2, ''Y''), (1, 2, ''Y'')], [2, 3, 3], False)"
  by code_simp

text \<open>
  What does hold of the outputs in every reachable automaton: a node with a value is
  among its own outputs, and every member of the outputs is an existing node.
\<close>

lemma outputs_contain_self:
  assumes "reachable a" "u < length (nodes a)"
  shows "(val (nodes a ! u) \<noteq> [] \<longrightarrow> u \<in> set (matches (nodes a ! u)))
     \<and> (\<forall>m \<in> set (matches (nodes a ! u)). m < length (nodes a))"
  using reachable_invar [OF assms(1)] assms(2) unfolding invar_def wf_matches_def by blast

end
